theory Spec2Isabelle
  imports Main
begin

section \<open>JavaScript values used by the session store\<close>

text \<open>
  The program is JavaScript. Text is modelled as \<^typ>\<open>string\<close> and is ASCII: every character
  has a code below 128 (\<open>ascii\<close>). On ASCII text \<open>toUpperCase\<close>, \<open>toLowerCase\<close>, \<open>trim\<close> and
  the regular-expression classes \<open>\s\<close>, \<open>\d\<close>, \<open>[A-Za-z]\<close> are the functions below. White space
  and case mapping outside ASCII are tables of the JavaScript engine (\<open>U+00A0\<close> is white
  space, the sharp s upper-cases to two letters); they are not modelled, and every statement about
  a text of the program assumes that the text is ASCII.
\<close>

definition ascii :: "string \<Rightarrow> bool" where
  "ascii s = list_all (\<lambda>c. (of_char c :: nat) < 128) s"

definition is_space :: "char \<Rightarrow> bool" where
  "is_space c = (c = CHR '' '' \<or> ((9::nat) \<le> of_char c \<and> (of_char c :: nat) \<le> 13))"

definition is_digit :: "char \<Rightarrow> bool" where
  "is_digit c = ((48::nat) \<le> of_char c \<and> (of_char c :: nat) \<le> 57)"

definition is_upper :: "char \<Rightarrow> bool" where
  "is_upper c = ((65::nat) \<le> of_char c \<and> (of_char c :: nat) \<le> 90)"

definition is_lower :: "char \<Rightarrow> bool" where
  "is_lower c = ((97::nat) \<le> of_char c \<and> (of_char c :: nat) \<le> 122)"

definition is_alpha :: "char \<Rightarrow> bool" where
  "is_alpha c = (is_upper c \<or> is_lower c)"

definition upper_char :: "char \<Rightarrow> char" where
  "upper_char c = (if is_lower c then char_of (of_char c - (32::nat)) else c)"

definition lower_char :: "char \<Rightarrow> char" where
  "lower_char c = (if is_upper c then char_of (of_char c + (32::nat)) else c)"

definition toUpperCase :: "string \<Rightarrow> string" where
  "toUpperCase s = map upper_char s"

definition toLowerCase :: "string \<Rightarrow> string" where
  "toLowerCase s = map lower_char s"

definition trim :: "string \<Rightarrow> string" where
  "trim s = rev (dropWhile is_space (rev (dropWhile is_space s)))"

subsection \<open>Numbers\<close>

text \<open>
  A JavaScript Number is an IEEE double. The program only builds non-negative whole
  numbers (from \<open>parseInt\<close> of a digit run and from sums of quantities), so a Number is
  modelled as a natural number or \<open>Infinity\<close>. \<open>to_number\<close> is the rounding of a
  mathematical integer to the nearest double (ties to even, 53 significant bits,
  overflow to \<open>Infinity\<close>); it is the identity below \<open>2 ^ 53\<close>.
\<close>

datatype number = Fin nat | Infinity

fun bitlen :: "nat \<Rightarrow> nat" where
  "bitlen n = (if n = 0 then 0 else Suc (bitlen (n div 2)))"

declare bitlen.simps [simp del]

definition to_number :: "nat \<Rightarrow> number" where
  "to_number n =
     (if n < 2 ^ 53 then Fin n
      else let e = bitlen n - 53;
               q = n div 2 ^ e;
               r = n mod 2 ^ e;
               h = 2 ^ (e - 1);
               q' = (if h < r \<or> (r = h \<and> odd q) then q + 1 else q);
               v = q' * 2 ^ e
           in if 2 ^ 1024 \<le> v then Infinity else Fin v)"

definition digit_val :: "char \<Rightarrow> nat" where
  "digit_val c = of_char c - 48"

definition digits_value :: "string \<Rightarrow> nat" where
  "digits_value ds = foldl (\<lambda>acc c. 10 * acc + digit_val c) 0 ds"

text \<open>\<open>parseInt(ds, 10)\<close> for a non-empty run of decimal digits \<open>ds\<close>.\<close>

definition parseInt10 :: "string \<Rightarrow> number" where
  "parseInt10 ds = to_number (digits_value ds)"

definition digit_char :: "nat \<Rightarrow> char" where
  "digit_char d = char_of (48 + d)"

fun decimal :: "nat \<Rightarrow> string" where
  "decimal n = (if n < 10 then [digit_char n] else decimal (n div 10) @ [digit_char (n mod 10)])"

declare decimal.simps [simp del]

text \<open>
  \<open>Number.prototype.toString\<close> (radix 10). Below \<open>2 ^ 53\<close> every whole number prints as
  its decimal digits. Above, ECMAScript prints the shortest digit string \<open>s\<close> (\<open>k\<close> digits,
  decimal exponent \<open>n\<close>) that still rounds to the same double, the closest such one;
  with \<open>n \<le> 21\<close> it is padded with zeros, beyond that the exponent form is used.
  For \<open>k\<close> digits the only values of \<open>s\<close> that can be closest are the two around
  \<open>v / 10 ^ (n - k)\<close>, and \<open>n\<close> is the number of digits of \<open>v\<close> or one more. An entry
  of \<open>candidates\<close> is the distance to \<open>v\<close>, then \<open>s\<close> and \<open>n\<close>.
\<close>

definition candidate :: "nat \<Rightarrow> nat \<Rightarrow> nat \<Rightarrow> nat \<Rightarrow> (nat \<times> nat \<times> nat) list" where
  "candidate v k n s =
     (let p = 10 ^ (n - k) in
      if 10 ^ (k - 1) \<le> s \<and> s < 10 ^ k \<and> to_number (s * p) = Fin v
      then [(if s * p \<le> v then v - s * p else s * p - v, s, n)] else [])"

definition candidates_at :: "nat \<Rightarrow> nat \<Rightarrow> nat \<Rightarrow> (nat \<times> nat \<times> nat) list" where
  "candidates_at v k n =
     (if n < k then []
      else candidate v k n (v div 10 ^ (n - k)) @ candidate v k n (v div 10 ^ (n - k) + 1))"

definition candidates :: "nat \<Rightarrow> nat \<Rightarrow> nat \<Rightarrow> (nat \<times> nat \<times> nat) list" where
  "candidates v nd k = candidates_at v k nd @ candidates_at v k (nd + 1)"

fun closest :: "(nat \<times> nat \<times> nat) \<Rightarrow> (nat \<times> nat \<times> nat) list \<Rightarrow> (nat \<times> nat \<times> nat)" where
  "closest b [] = b"
| "closest (d, s, n) ((d', s', n') # cs) =
     (if d' < d \<or> (d' = d \<and> even s' \<and> odd s) then closest (d', s', n') cs
      else closest (d, s, n) cs)"

fun shortest :: "nat \<Rightarrow> nat \<Rightarrow> nat \<Rightarrow> nat \<Rightarrow> (nat \<times> nat) option" where
  "shortest v nd k 0 = None"
| "shortest v nd k (Suc fuel) =
     (case candidates v nd k of
        [] \<Rightarrow> shortest v nd (Suc k) fuel
      | c # cs \<Rightarrow> (case closest c cs of (d, s, n) \<Rightarrow> Some (s, n)))"

definition number_toString :: "number \<Rightarrow> string" where
  "number_toString x =
     (case x of
        Infinity \<Rightarrow> ''Infinity''
      | Fin v \<Rightarrow>
          if v < 2 ^ 53 then decimal v
          else let nd = length (decimal v) in
            (case shortest v nd 1 nd of
               None \<Rightarrow> decimal v
             | Some (s, n) \<Rightarrow>
                 let ds = decimal s; k = length ds in
                 if n \<le> 21 then ds @ replicate (n - k) (CHR ''0'')
                 else if k = 1 then ds @ ''e+'' @ decimal (n - 1)
                 else take 1 ds @ ''.'' @ drop 1 ds @ ''e+'' @ decimal (n - 1)))"

text \<open>\<open>String.prototype.padStart(3, '0')\<close>.\<close>

definition padStart3 :: "string \<Rightarrow> string" where
  "padStart3 s = replicate (3 - length s) (CHR ''0'') @ s"

section \<open>Data model\<close>

text \<open>
  An item id is \<open>Date.now() + Math.random()\<close>: an opaque number that is only compared
  with \<open>===\<close>. \<open>qty\<close> may be missing in stored data (the code writes \<open>item.qty || 1\<close>),
  so it is optional. A session's \<open>boxes\<close> object is the list of its entries in the order
  of \<open>Object.entries\<close>; keys written by the program are never integer-like, so new keys
  go to the end of that order.
\<close>

record Item =
  item_id :: nat
  name :: string
  qty :: "number option"
  addedAt :: string
  isDuplicate :: bool
  tags :: "string list"

record BoxData =
  items :: "Item list"
  completed :: bool
  completedAt :: "string option"
  secondaryLocation :: "string option"

record Session =
  session_id :: "string option"
  startedAt :: "string option"
  boxes :: "(string \<times> BoxData) list"

text \<open>
  The module state of \<open>data.js\<close> (live session, history, cursor) and of the application
  file (\<open>currentBox\<close>, \<open>editingItemId\<close>), the configured history bound
  \<open>window.CONFIG?.MAX_HISTORY_SIZE\<close>, which is absent (\<open>None\<close>) unless the host page sets it,
  and the flag \<open>boxAudit_completedMigration_v1\<close> of the local storage.

  There are two names for a session. \<open>currentSession\<close> is the variable of \<open>data.js\<close>;
  \<open>ensureBoxExists\<close>, \<open>saveStateToHistory\<close>, \<open>undo\<close>, \<open>redo\<close>, \<open>loadSession\<close> and
  \<open>startNewSession\<close> use it. \<open>window.BoxData.currentSession\<close> is a property that is set once,
  when \<open>data.js\<close> is loaded, to the object the variable holds at that time; the operations
  of the application file read and edit that object. \<open>undo\<close>, \<open>redo\<close>, \<open>loadSession\<close> and
  \<open>startNewSession\<close> assign a new object to the variable and leave the property alone, so
  from the first such call on the two are different objects, and they share no part
  (the new object is a fresh literal or the result of \<open>JSON.parse\<close>). \<open>exportedSession\<close> is
  \<open>None\<close> while the property and the variable are one object, and the object of the
  property afterwards.
\<close>

record State =
  currentSession :: Session
  exportedSession :: "Session option"
  history :: "Session list"
  historyIndex :: int
  currentBox :: "string option"
  editingItemId :: "(string option \<times> nat) option"
  MAX_HISTORY_SIZE :: "nat option"
  migrationDone :: bool

text \<open>\<open>window.BoxData.currentSession\<close>, as the application file reads it.\<close>

definition window_session :: "State \<Rightarrow> Session" where
  "window_session st = (case exportedSession st of None \<Rightarrow> currentSession st | Some w \<Rightarrow> w)"

text \<open>The assignment \<open>currentSession = s\<close> of a new object to the variable of \<open>data.js\<close>.\<close>

definition assign_session :: "Session \<Rightarrow> State \<Rightarrow> State" where
  "assign_session s st = st\<lparr>currentSession := s, exportedSession := Some (window_session st)\<rparr>"

text \<open>A change in place of the object \<open>window.BoxData.currentSession\<close>: it is seen through
  the variable of \<open>data.js\<close> as long as that still holds the same object.\<close>

definition update_window :: "(Session \<Rightarrow> Session) \<Rightarrow> State \<Rightarrow> State" where
  "update_window f st =
     (case exportedSession st of
        None \<Rightarrow> st\<lparr>currentSession := f (currentSession st)\<rparr>
      | Some w \<Rightarrow> st\<lparr>exportedSession := Some (f w)\<rparr>)"

section \<open>History\<close>

text \<open>
  \<open>JSON.parse(JSON.stringify(session))\<close>: a structural copy. On the data model its only
  effect is that a non-finite number is written as \<open>null\<close>.
\<close>

definition json_qty :: "number option \<Rightarrow> number option" where
  "json_qty q = (case q of Some Infinity \<Rightarrow> None | _ \<Rightarrow> q)"

definition json_item :: "Item \<Rightarrow> Item" where
  "json_item i = i\<lparr>qty := json_qty (qty i)\<rparr>"

definition json_box :: "BoxData \<Rightarrow> BoxData" where
  "json_box b = b\<lparr>items := map json_item (items b)\<rparr>"

definition json_copy :: "Session \<Rightarrow> Session" where
  "json_copy s = s\<lparr>boxes := map (\<lambda>(k, b). (k, json_box b)) (boxes s)\<rparr>"

text \<open>\<open>history.slice(0, e)\<close>: a negative end counts from the end of the array.\<close>

definition slice0 :: "'a list \<Rightarrow> int \<Rightarrow> 'a list" where
  "slice0 xs e = take (nat (if e < 0 then max (int (length xs) + e) 0 else e)) xs"

definition max_history :: "State \<Rightarrow> nat" where
  "max_history st = (case MAX_HISTORY_SIZE st of None \<Rightarrow> 50 | Some n \<Rightarrow> if n = 0 then 50 else n)"

definition saveStateToHistory :: "State \<Rightarrow> State" where
  "saveStateToHistory st =
     (let h1 = slice0 (history st) (historyIndex st + 1);
          h2 = h1 @ [json_copy (currentSession st)];
          i2 = int (length h2) - 1
      in if max_history st < length h2
         then st\<lparr>history := tl h2, historyIndex := i2 - 1\<rparr>
         else st\<lparr>history := h2, historyIndex := i2\<rparr>)"

text \<open>
  \<open>undo\<close> and \<open>redo\<close> return the new state and the boolean they report; the copy of the
  snapshot is a new object, assigned to the variable of \<open>data.js\<close>. The cursor never
  leaves the array in a reachable state; reading past it would give \<open>undefined\<close> and
  make \<open>JSON.stringify\<close> fail, which is the error value \<open>None\<close> here.
\<close>

definition snapshot_at :: "State \<Rightarrow> int \<Rightarrow> Session option" where
  "snapshot_at st i =
     (if 0 \<le> i \<and> i < int (length (history st)) then Some (json_copy (history st ! nat i)) else None)"

definition undo :: "State \<Rightarrow> (State \<times> bool) option" where
  "undo st =
     (if 0 < historyIndex st
      then (case snapshot_at st (historyIndex st - 1) of
              None \<Rightarrow> None
            | Some s \<Rightarrow> Some (assign_session s (st\<lparr>historyIndex := historyIndex st - 1\<rparr>), True))
      else Some (st, False))"

definition redo :: "State \<Rightarrow> (State \<times> bool) option" where
  "redo st =
     (if historyIndex st < int (length (history st)) - 1
      then (case snapshot_at st (historyIndex st + 1) of
              None \<Rightarrow> None
            | Some s \<Rightarrow> Some (assign_session s (st\<lparr>historyIndex := historyIndex st + 1\<rparr>), True))
      else Some (st, False))"

section \<open>Location normalizer\<close>

text \<open>
  \<open>/^SHELF\s*(\d+)([A-Za-z]*)$/i\<close> and \<open>/^S\s*(\d+)([A-Za-z]*)$/i\<close>: the literal prefix
  (compared case-insensitively), blanks, a non-empty digit run, a letter run, end of
  text. The three classes are disjoint, so the greedy match is the only one; the result
  is the pair of capture groups.
\<close>

definition shelf_pattern :: "string \<Rightarrow> string \<Rightarrow> (string \<times> string) option" where
  "shelf_pattern prefix u =
     (if toUpperCase (take (length prefix) u) = toUpperCase prefix
      then let r = dropWhile is_space (drop (length prefix) u);
               num = takeWhile is_digit r;
               r2 = dropWhile is_digit r;
               letter = takeWhile is_alpha r2;
               r3 = dropWhile is_alpha r2
           in if num \<noteq> [] \<and> r3 = [] then Some (num, letter) else None
      else None)"

text \<open>\<open>upper.match(/\d+/)\<close>: the leftmost maximal run of digits.\<close>

definition first_digits :: "string \<Rightarrow> string option" where
  "first_digits u =
     (let r = dropWhile (\<lambda>c. \<not> is_digit c) u
      in if r = [] then None else Some (takeWhile is_digit r))"

text \<open>The argument is \<open>None\<close> for \<open>null\<close>; so is the result.\<close>

definition normalizeBoxNumber :: "string option \<Rightarrow> string option" where
  "normalizeBoxNumber boxNumber =
     (case boxNumber of
        None \<Rightarrow> None
      | Some s \<Rightarrow>
          if s = [] then None
          else let upper = trim (toUpperCase s) in
            (case shelf_pattern ''SHELF'' upper of
               Some (num, letter) \<Rightarrow> Some (''SHELF '' @ num @ letter)
             | None \<Rightarrow>
                (case shelf_pattern ''S'' upper of
                   Some (num, letter) \<Rightarrow> Some (''SHELF '' @ num @ letter)
                 | None \<Rightarrow>
                    (case first_digits upper of
                       Some numStr \<Rightarrow> Some (''BOX'' @ padStart3 (number_toString (parseInt10 numStr)))
                     | None \<Rightarrow> Some upper))))"

definition normalizeShelfLocation :: "string option \<Rightarrow> string option" where
  "normalizeShelfLocation v =
     (case v of
        None \<Rightarrow> None
      | Some s \<Rightarrow>
          if s = [] then None
          else let upper = trim (toUpperCase s) in
            (case shelf_pattern ''SHELF'' upper of
               Some (num, letter) \<Rightarrow> Some (''SHELF '' @ num @ letter)
             | None \<Rightarrow>
                (case shelf_pattern ''S'' upper of
                   Some (num, letter) \<Rightarrow> Some (''SHELF '' @ num @ letter)
                 | None \<Rightarrow> None)))"

subsection \<open>The patterns, as the specification words them\<close>

text \<open>
  A shelf text is \<open>SHELF\<close> or \<open>S\<close> in any case, blanks, a non-empty digit run and a
  letter run; the first digit run of a text is the leftmost maximal one. These two
  predicates say so without reference to the matcher above. \<open>plain_box_number\<close> holds
  when the text does not take the box branch, or the number it takes there is printed in
  plain digits.
\<close>

definition shelf_form :: "string \<Rightarrow> string \<Rightarrow> string \<Rightarrow> bool" where
  "shelf_form u ds ls =
     (\<exists>p ws. u = p @ ws @ ds @ ls \<and> (toUpperCase p = ''SHELF'' \<or> toUpperCase p = ''S'') \<and>
        list_all is_space ws \<and> ds \<noteq> [] \<and> list_all is_digit ds \<and> list_all is_alpha ls)"

definition digit_run :: "string \<Rightarrow> string \<Rightarrow> bool" where
  "digit_run u ds =
     (\<exists>a b. u = a @ ds @ b \<and> list_all (\<lambda>c. \<not> is_digit c) a \<and> ds \<noteq> [] \<and> list_all is_digit ds \<and>
        (b = [] \<or> \<not> is_digit (hd b)))"

definition plain_box_number :: "string \<Rightarrow> bool" where
  "plain_box_number s =
     (case normalizeShelfLocation (Some s) of
        Some k \<Rightarrow> True
      | None \<Rightarrow>
         (case first_digits (trim (toUpperCase s)) of
            None \<Rightarrow> True
          | Some ds \<Rightarrow> list_all is_digit (number_toString (parseInt10 ds))))"

section \<open>Quantity parser\<close>

text \<open>
  \<open>/\s+[xX](\d+)\s*$/\<close> and \<open>/\s*\((\d+)\)\s*$/\<close> are anchored at the end, so they are
  read from the end of the text: trailing blanks, the digit run, the marker, and the
  blanks before it (all of them, since \<open>match\<close> returns the leftmost match). The result
  is the text before the match and the captured digits; \<open>replace(pattern, '')\<close> leaves
  exactly that text.
\<close>

definition xPattern :: "string \<Rightarrow> (string \<times> string) option" where
  "xPattern t =
     (let r0 = dropWhile is_space (rev t);
          d = takeWhile is_digit r0;
          r1 = dropWhile is_digit r0
      in if d = [] then None
         else (case r1 of
                 [] \<Rightarrow> None
               | c # r2 \<Rightarrow>
                   if (c = CHR ''x'' \<or> c = CHR ''X'') \<and> takeWhile is_space r2 \<noteq> []
                   then Some (rev (dropWhile is_space r2), rev d)
                   else None))"

definition parenPattern :: "string \<Rightarrow> (string \<times> string) option" where
  "parenPattern t =
     (case dropWhile is_space (rev t) of
        [] \<Rightarrow> None
      | c # r1 \<Rightarrow>
          if c \<noteq> CHR '')'' then None
          else let d = takeWhile is_digit r1;
                   r2 = dropWhile is_digit r1
               in if d = [] then None
                  else (case r2 of
                          [] \<Rightarrow> None
                        | c2 # r3 \<Rightarrow>
                            if c2 = CHR ''('' then Some (rev (dropWhile is_space r3), rev d)
                            else None))"

text \<open>
  The two trailing patterns in the words of the specification: a text before the match,
  blanks (at least one before \<open>x\<close>), the marker with its digits, and blanks up to the end.
  The text before the match does not end in a blank, since the match is the leftmost.
\<close>

definition x_form :: "string \<Rightarrow> string \<Rightarrow> string \<Rightarrow> bool" where
  "x_form t pre ds =
     (\<exists>ws x ws2. t = pre @ ws @ [x] @ ds @ ws2 \<and> ws \<noteq> [] \<and> list_all is_space ws \<and>
        (x = CHR ''x'' \<or> x = CHR ''X'') \<and> ds \<noteq> [] \<and> list_all is_digit ds \<and>
        list_all is_space ws2 \<and> (pre = [] \<or> \<not> is_space (last pre)))"

definition paren_form :: "string \<Rightarrow> string \<Rightarrow> string \<Rightarrow> bool" where
  "paren_form t pre ds =
     (\<exists>ws ws2. t = pre @ ws @ ''('' @ ds @ '')'' @ ws2 \<and> list_all is_space ws \<and>
        ds \<noteq> [] \<and> list_all is_digit ds \<and> list_all is_space ws2 \<and>
        (pre = [] \<or> \<not> is_space (last pre)))"

text \<open>\<open>n || 1\<close> on a Number.\<close>

definition or1 :: "number \<Rightarrow> number" where
  "or1 n = (if n = Fin 0 then Fin 1 else n)"

definition parseQuantity :: "string \<Rightarrow> string \<times> number" where
  "parseQuantity itemName =
     (if itemName = [] then (itemName, Fin 1)
      else let name0 = trim itemName;
               (name1, qty1) =
                 (case xPattern name0 of
                    Some (pre, d) \<Rightarrow> (trim pre, or1 (parseInt10 d))
                  | None \<Rightarrow>
                     (case parenPattern name0 of
                        Some (pre, d) \<Rightarrow> (trim pre, or1 (parseInt10 d))
                      | None \<Rightarrow> (name0, Fin 1)))
           in (if name1 = [] then itemName else name1, or1 qty1))"

section \<open>Session store\<close>

text \<open>Objects as entry lists: reading, writing and deleting a property.\<close>

definition obj_set :: "(string \<times> 'a) list \<Rightarrow> string \<Rightarrow> 'a \<Rightarrow> (string \<times> 'a) list" where
  "obj_set bs k v =
     (if k \<in> fst ` set bs then map (\<lambda>(k', b). if k' = k then (k', v) else (k', b)) bs
      else bs @ [(k, v)])"

definition obj_delete :: "(string \<times> 'a) list \<Rightarrow> string \<Rightarrow> (string \<times> 'a) list" where
  "obj_delete bs k = filter (\<lambda>(k', b). k' \<noteq> k) bs"

text \<open>A property key that is \<open>null\<close> is the string \<open>null\<close>.\<close>

definition key_str :: "string option \<Rightarrow> string" where
  "key_str k = (case k of None \<Rightarrow> ''null'' | Some s \<Rightarrow> s)"

text \<open>Truthiness of a string or \<open>null\<close>, and of an optional Number.\<close>

definition truthy :: "string option \<Rightarrow> bool" where
  "truthy v = (case v of None \<Rightarrow> False | Some s \<Rightarrow> s \<noteq> [])"

definition falsy_qty :: "number option \<Rightarrow> bool" where
  "falsy_qty q = (q = None \<or> q = Some (Fin 0))"

text \<open>\<open>n > 1\<close> and \<open>a + b\<close> on Numbers (a sum of doubles is the exact sum, rounded).\<close>

definition gt1 :: "number \<Rightarrow> bool" where
  "gt1 n = (case n of Fin k \<Rightarrow> 1 < k | Infinity \<Rightarrow> True)"

definition num_add :: "number \<Rightarrow> number \<Rightarrow> number" where
  "num_add a b = (case (a, b) of (Fin x, Fin y) \<Rightarrow> to_number (x + y) | _ \<Rightarrow> Infinity)"

definition createEmptyBoxData :: BoxData where
  "createEmptyBoxData = \<lparr>items = [], completed = False, completedAt = None, secondaryLocation = None\<rparr>"

text \<open>
  A box record as \<open>loadSession\<close> reads it from storage, before it is repaired: a value
  that is not an object, or an object whose \<open>items\<close> is an array of items or else missing
  or something that is no array (\<open>None\<close>), whose \<open>completed\<close> is a boolean or else missing or
  something that is no boolean (\<open>None\<close>), and whose \<open>completedAt\<close> and \<open>secondaryLocation\<close>
  are a text, or missing or \<open>null\<close> (\<open>None\<close>). \<open>as_stored\<close> is a record of the data model
  seen as such an object.
\<close>

datatype StoredBox =
    NotAnObject
  | StoredBox (stored_items: "Item list option") (stored_completed: "bool option")
      (stored_completedAt: "string option") (stored_secondaryLocation: "string option")

definition as_stored :: "BoxData \<Rightarrow> StoredBox" where
  "as_stored b = StoredBox (Some (items b)) (Some (completed b)) (completedAt b) (secondaryLocation b)"

definition ensureBoxDataShape :: "StoredBox \<Rightarrow> BoxData" where
  "ensureBoxDataShape boxData =
     (case boxData of
        NotAnObject \<Rightarrow> createEmptyBoxData
      | StoredBox its c t sl \<Rightarrow>
          \<lparr>items = (case its of None \<Rightarrow> [] | Some xs \<Rightarrow> xs),
           completed = (case c of None \<Rightarrow> False | Some v \<Rightarrow> v),
           completedAt = (if truthy t then t else None),
           secondaryLocation = sl\<rparr>)"

definition ensureBoxExists :: "string \<Rightarrow> Session \<Rightarrow> Session" where
  "ensureBoxExists boxKey s =
     (case map_of (boxes s) boxKey of
        None \<Rightarrow> s\<lparr>boxes := obj_set (boxes s) boxKey createEmptyBoxData\<rparr>
      | Some existing \<Rightarrow>
          s\<lparr>boxes := obj_set (boxes s) boxKey (ensureBoxDataShape (as_stored existing))\<rparr>)"

subsection \<open>Key normalization and merging\<close>

definition normalize_item :: "Item \<Rightarrow> Item" where
  "normalize_item item =
     (if qty item = Some (Fin 1) \<or> falsy_qty (qty item)
      then (case parseQuantity (name item) of
              (pname, pqty) \<Rightarrow>
                if gt1 pqty then item\<lparr>name := pname, qty := Some pqty\<rparr>
                else if falsy_qty (qty item) then item\<lparr>qty := Some (Fin 1)\<rparr>
                else item)
      else item)"

definition normalizeItemQuantities :: "(string \<times> BoxData) list \<Rightarrow> (string \<times> BoxData) list" where
  "normalizeItemQuantities bs = map (\<lambda>(k, b). (k, b\<lparr>items := map normalize_item (items b)\<rparr>)) bs"

text \<open>The two branches of the loop body: merging into a record already stored under
  the normalized key, and storing a first record under it.\<close>

definition merge_box :: "BoxData \<Rightarrow> BoxData \<Rightarrow> BoxData" where
  "merge_box existing safeBoxData =
     (let e0 = ensureBoxDataShape (as_stored existing);
          e1 = e0\<lparr>items := items e0 @ items safeBoxData\<rparr>;
          e2 = (if completed safeBoxData \<or> completed e1
                then e1\<lparr>completed := True,
                        completedAt := (if truthy (completedAt e1) then completedAt e1
                                        else completedAt safeBoxData)\<rparr>
                else e1)
      in if truthy (secondaryLocation safeBoxData) \<and> \<not> truthy (secondaryLocation e2)
         then e2\<lparr>secondaryLocation := secondaryLocation safeBoxData\<rparr>
         else e2)"

definition first_box :: "BoxData \<Rightarrow> BoxData" where
  "first_box safeBoxData =
     safeBoxData\<lparr>completedAt := (if truthy (completedAt safeBoxData) then completedAt safeBoxData else None),
                 secondaryLocation := (if truthy (secondaryLocation safeBoxData)
                                       then secondaryLocation safeBoxData else None)\<rparr>"

fun normalize_loop :: "(string \<times> BoxData) list \<Rightarrow> (string \<times> BoxData) list \<Rightarrow> (string \<times> BoxData) list" where
  "normalize_loop [] normalizedBoxes = normalizedBoxes"
| "normalize_loop ((boxKey, boxData) # rest) normalizedBoxes =
     (let normalizedKey = key_str (normalizeBoxNumber (Some boxKey));
          safeBoxData = ensureBoxDataShape (as_stored boxData)
      in normalize_loop rest
           (case map_of normalizedBoxes normalizedKey of
              Some existing \<Rightarrow> obj_set normalizedBoxes normalizedKey (merge_box existing safeBoxData)
            | None \<Rightarrow> obj_set normalizedBoxes normalizedKey (first_box safeBoxData)))"

definition normalizeSessionBoxes :: "Session \<Rightarrow> Session" where
  "normalizeSessionBoxes s = s\<lparr>boxes := normalizeItemQuantities (normalize_loop (boxes s) [])\<rparr>"

section \<open>Application operations\<close>

text \<open>
  The operations of the application file read and edit \<open>window.BoxData.currentSession\<close>
  and then call \<open>saveStateToHistory\<close>, which copies the session of \<open>data.js\<close>. The clock
  (\<open>new Date().toISOString()\<close>), the fresh item id and the tags of the active voice context
  are arguments. \<open>!currentBox\<close> holds for \<open>null\<close> and for the empty string. Reading a
  property of a box that does not exist is a \<open>TypeError\<close>; an operation that can throw
  returns the error, with the state at the time of the throw when it has changed by then.
\<close>

datatype error = TypeError

definition no_current_box :: "State \<Rightarrow> bool" where
  "no_current_box st = (\<not> truthy (currentBox st))"

definition set_boxes :: "(string \<times> BoxData) list \<Rightarrow> State \<Rightarrow> State" where
  "set_boxes bs st = update_window (\<lambda>s. s\<lparr>boxes := bs\<rparr>) st"

text \<open>\<open>switchBox\<close>: an input without a normal form is refused with an alert; a location
  that the exported session does not have is created in the session of \<open>data.js\<close>.\<close>

definition switchBox :: "string option \<Rightarrow> State \<Rightarrow> State" where
  "switchBox boxNumber st =
     (let normalized = normalizeBoxNumber boxNumber in
      if \<not> truthy normalized then st
      else let st1 = st\<lparr>currentBox := normalized\<rparr> in
        if map_of (boxes (window_session st1)) (key_str normalized) = None
        then st1\<lparr>currentSession := ensureBoxExists (key_str normalized) (currentSession st1)\<rparr>
        else st1)"

text \<open>\<open>Array.prototype.findIndex\<close>; \<open>find\<close> returns the element at that index.\<close>

fun findIndex :: "('a \<Rightarrow> bool) \<Rightarrow> 'a list \<Rightarrow> nat option" where
  "findIndex P [] = None"
| "findIndex P (x # xs) = (if P x then Some 0 else map_option Suc (findIndex P xs))"

text \<open>\<open>items.splice(idx, 1)\<close>.\<close>

definition splice1 :: "nat \<Rightarrow> 'a list \<Rightarrow> 'a list" where
  "splice1 idx xs = take idx xs @ drop (Suc idx) xs"

definition same_name :: "string \<Rightarrow> Item \<Rightarrow> bool" where
  "same_name pname item = (trim (toLowerCase (name item)) = trim (toLowerCase pname))"

definition qty_or1 :: "number option \<Rightarrow> number" where
  "qty_or1 q = (case q of None \<Rightarrow> Fin 1 | Some n \<Rightarrow> or1 n)"

text \<open>The change \<open>addItem\<close> makes to the item array of the current box.\<close>

definition add_to_items :: "string \<Rightarrow> nat \<Rightarrow> string list \<Rightarrow> string \<Rightarrow> Item list \<Rightarrow> Item list" where
  "add_to_items now fresh ctx itemName currentItems =
     (case parseQuantity itemName of
        (pname, pqty) \<Rightarrow>
          (case findIndex (same_name pname) currentItems of
             Some idx \<Rightarrow>
               (let existingItem = currentItems ! idx;
                    merged = existingItem\<lparr>qty := Some (num_add (qty_or1 (qty existingItem)) pqty),
                                         addedAt := now\<rparr>
                in splice1 idx currentItems @ [merged])
           | None \<Rightarrow>
               currentItems @
                 [\<lparr>item_id = fresh, name = pname, qty = Some pqty, addedAt = now,
                   isDuplicate = False, tags = ctx\<rparr>]))"

text \<open>
  \<open>addItem\<close> calls \<open>ensureBoxExists(currentBox)\<close>, which works on the session of \<open>data.js\<close>,
  and then reads \<open>window.BoxData.currentSession.boxes[currentBox].items\<close>: when the exported
  session is another object and has no such box, that is a \<open>TypeError\<close>, thrown after the
  box has been created in the session of \<open>data.js\<close>.
\<close>

definition addItem :: "string \<Rightarrow> nat \<Rightarrow> string list \<Rightarrow> string \<Rightarrow> State \<Rightarrow> error \<times> State + State" where
  "addItem now fresh ctx itemName st =
     (if no_current_box st then Inr st
      else let cb = key_str (currentBox st);
               st1 = st\<lparr>currentSession := ensureBoxExists cb (currentSession st)\<rparr>
           in (case map_of (boxes (window_session st1)) cb of
                 None \<Rightarrow> Inl (TypeError, st1)
               | Some box \<Rightarrow>
                   Inr (saveStateToHistory
                          (set_boxes
                             (obj_set (boxes (window_session st1)) cb
                                (box\<lparr>items := add_to_items now fresh ctx itemName (items box)\<rparr>))
                             st1))))"

definition deleteItem :: "string \<Rightarrow> nat \<Rightarrow> State \<Rightarrow> State" where
  "deleteItem boxNumber itemId st =
     (let normalizedBox = normalizeBoxNumber (Some boxNumber);
          bs = boxes (window_session st)
      in (case map_of bs (key_str normalizedBox) of
            None \<Rightarrow> st
          | Some box \<Rightarrow>
              (case findIndex (\<lambda>item. item_id item = itemId) (items box) of
                 None \<Rightarrow> st
               | Some index \<Rightarrow>
                   (let items' = splice1 index (items box)
                    in saveStateToHistory
                         (set_boxes
                            (if items' = [] \<and> normalizedBox \<noteq> currentBox st
                             then obj_delete bs (key_str normalizedBox)
                             else obj_set bs (key_str normalizedBox) (box\<lparr>items := items'\<rparr>))
                            st)))))"

definition toggleBoxComplete :: "string \<Rightarrow> string \<Rightarrow> State \<Rightarrow> State" where
  "toggleBoxComplete now boxNumber st =
     (let normalizedBox = key_str (normalizeBoxNumber (Some boxNumber));
          bs = boxes (window_session st)
      in (case map_of bs normalizedBox of
            None \<Rightarrow> st
          | Some box \<Rightarrow>
              saveStateToHistory
                (set_boxes
                   (obj_set bs normalizedBox
                      (box\<lparr>completed := \<not> completed box,
                           completedAt := (if \<not> completed box then Some now else None)\<rparr>))
                   st)))"

text \<open>
  \<open>setSecondaryLocation(value)\<close> stores \<open>value || null\<close>. \<open>saveSecondaryLocation\<close> is the
  handler of the input field: its argument is the field's text, and besides the new
  state it yields what the user is told.
\<close>

definition setSecondaryLocation :: "string option \<Rightarrow> State \<Rightarrow> State" where
  "setSecondaryLocation v st =
     (if no_current_box st then st
      else (case map_of (boxes (window_session st)) (key_str (currentBox st)) of
              None \<Rightarrow> st
            | Some box \<Rightarrow>
                saveStateToHistory
                  (set_boxes
                     (obj_set (boxes (window_session st)) (key_str (currentBox st))
                        (box\<lparr>secondaryLocation := (if truthy v then v else None)\<rparr>))
                     st)))"

datatype outcome = Ignored | Saved | SaveError string

definition saveSecondaryLocation :: "string \<Rightarrow> State \<Rightarrow> State \<times> outcome" where
  "saveSecondaryLocation inputValue st =
     (if no_current_box st \<or> map_of (boxes (window_session st)) (key_str (currentBox st)) = None
      then (st, Ignored)
      else let rawValue = trim inputValue in
        if rawValue = [] then (setSecondaryLocation None st, Saved)
        else (case normalizeShelfLocation (Some rawValue) of
                None \<Rightarrow> (st, SaveError ''Secondary location must be a SHELF (e.g., SHELF 2C).'')
              | Some normalizedShelf \<Rightarrow> (setSecondaryLocation (Some normalizedShelf) st, Saved)))"

text \<open>
  \<open>startEditItem\<close> and \<open>saveEditedItem\<close> read \<open>boxes[boxNumber].items\<close> without a check: a
  missing box is a \<open>TypeError\<close>, thrown by \<open>startEditItem\<close> after it has set
  \<open>editingItemId\<close> and by \<open>saveEditedItem\<close> before it changes anything. The item found by
  id is rewritten in place.
\<close>

definition startEditItem :: "string \<Rightarrow> nat \<Rightarrow> State \<Rightarrow> error \<times> State + State" where
  "startEditItem boxNumber itemId st =
     (let normalizedBox = normalizeBoxNumber (Some boxNumber);
          st1 = st\<lparr>editingItemId := Some (normalizedBox, itemId)\<rparr>
      in (case map_of (boxes (window_session st1)) (key_str normalizedBox) of
            None \<Rightarrow> Inl (TypeError, st1)
          | Some box \<Rightarrow> Inr st1))"

definition saveEditedItem :: "string \<Rightarrow> State \<Rightarrow> error + State" where
  "saveEditedItem newName st =
     (case editingItemId st of
        None \<Rightarrow> Inr st
      | Some (boxNumber, itemId) \<Rightarrow>
          (case map_of (boxes (window_session st)) (key_str boxNumber) of
             None \<Rightarrow> Inl TypeError
           | Some box \<Rightarrow>
               (case findIndex (\<lambda>i. item_id i = itemId) (items box) of
                  None \<Rightarrow> Inr (st\<lparr>editingItemId := None\<rparr>)
                | Some idx \<Rightarrow>
                    (case parseQuantity (trim newName) of
                       (pname, pqty) \<Rightarrow>
                         Inr ((saveStateToHistory
                                (set_boxes
                                   (obj_set (boxes (window_session st)) (key_str boxNumber)
                                      (box\<lparr>items := (items box)
                                             [idx := (items box ! idx)\<lparr>name := pname, qty := Some pqty,
                                                                         isDuplicate := False\<rparr>]\<rparr>))
                                   st))\<lparr>editingItemId := None\<rparr>)))))"

section \<open>Runs of the history manager\<close>

text \<open>
  \<open>record_all\<close> calls \<open>saveStateToHistory\<close> once for each session of a list, the live
  session being that one at the time of the call. \<open>undo_reports\<close> calls \<open>undo\<close> a number
  of times in a row and collects what each call reports.
\<close>

fun record_all :: "Session list \<Rightarrow> State \<Rightarrow> State" where
  "record_all [] st = st"
| "record_all (s # ss) st = record_all ss (saveStateToHistory (st\<lparr>currentSession := s\<rparr>))"

fun undo_reports :: "nat \<Rightarrow> State \<Rightarrow> bool list option" where
  "undo_reports 0 st = Some []"
| "undo_reports (Suc n) st =
     (case undo st of
        None \<Rightarrow> None
      | Some (st', ok) \<Rightarrow> map_option (\<lambda>r. ok # r) (undo_reports n st'))"

text \<open>
  The states the module can be in: it starts with an empty history and the cursor at
  \<open>-1\<close>; anything may change the rest of the state; the history and the cursor change
  through \<open>saveStateToHistory\<close>, \<open>undo\<close> and \<open>redo\<close> only.
\<close>

inductive reachable :: "State \<Rightarrow> bool" where
  reach_start: "history st = [] \<Longrightarrow> historyIndex st = - 1 \<Longrightarrow> reachable st"
| reach_mutate: "reachable st \<Longrightarrow> history st' = history st \<Longrightarrow> historyIndex st' = historyIndex st
           \<Longrightarrow> reachable st'"
| reach_record: "reachable st \<Longrightarrow> reachable (saveStateToHistory st)"
| reach_undo: "reachable st \<Longrightarrow> undo st = Some (st', ok) \<Longrightarrow> reachable st'"
| reach_redo: "reachable st \<Longrightarrow> redo st = Some (st', ok) \<Longrightarrow> reachable st'"

definition empty_session :: Session where
  "empty_session = \<lparr>session_id = None, startedAt = None, boxes = []\<rparr>"

definition initial_state :: State where
  "initial_state = \<lparr>currentSession = empty_session, exportedSession = None, history = [],
     historyIndex = - 1, currentBox = None, editingItemId = None, MAX_HISTORY_SIZE = None,
     migrationDone = False\<rparr>"

text \<open>
  The invariant of the specification: within one box no two items have the same name up
  to case and surrounding blanks. \<open>name_key\<close> is the key \<open>addItem\<close> compares.
\<close>

definition name_key :: "Item \<Rightarrow> string" where
  "name_key i = trim (toLowerCase (name i))"

definition unique_names :: "Item list \<Rightarrow> bool" where
  "unique_names xs = distinct (map name_key xs)"

section \<open>Loading, completion flags and reachable states of the application\<close>

text \<open>\<open>startNewSession\<close>: the id is the ISO time with \<open>:\<close> and \<open>.\<close> turned into \<open>-\<close>.\<close>

definition startNewSession :: "string \<Rightarrow> State \<Rightarrow> State" where
  "startNewSession now st =
     assign_session
       \<lparr>session_id = Some (''session-'' @ map (\<lambda>c. if c = CHR '':'' \<or> c = CHR ''.'' then CHR ''-'' else c) now),
        startedAt = Some now, boxes = []\<rparr> st"

text \<open>
  \<open>markExistingBoxesAsCompleted\<close> is the one-time migration that \<open>loadSession\<close> runs; it
  sets its flag in the local storage whether or not it marks a box.
\<close>

definition mark_box :: "string \<Rightarrow> BoxData \<Rightarrow> BoxData" where
  "mark_box now boxData =
     (if items boxData \<noteq> [] \<and> \<not> completed boxData
      then boxData\<lparr>completed := True,
                   completedAt := (if truthy (completedAt boxData) then completedAt boxData else Some now)\<rparr>
      else boxData)"

definition markExistingBoxesAsCompleted :: "string \<Rightarrow> State \<Rightarrow> State" where
  "markExistingBoxesAsCompleted now st =
     (if migrationDone st then st
      else st\<lparr>currentSession :=
                (currentSession st)\<lparr>boxes := map (\<lambda>(k, b). (k, mark_box now b)) (boxes (currentSession st))\<rparr>,
              migrationDone := True\<rparr>)"

text \<open>
  What \<open>loadSession\<close> gets from the file system or the local storage: nothing (or a value
  that is not an object); an object with its \<open>id\<close>, \<open>startedAt\<close> and \<open>boxes\<close>, the last being
  an object of stored box records or else missing or no object (\<open>None\<close>); or a text that
  \<open>JSON.parse\<close> rejects, in which case the handler takes the backup copy of the session
  storage as it is, if there is one.
\<close>

datatype StoredData =
    NoData
  | StoredSession (stored_id: "string option") (stored_startedAt: "string option")
      (stored_boxes: "(string \<times> StoredBox) list option")
  | Unreadable (backup: "Session option")

text \<open>
  \<open>loadSession\<close> returns the new state and the boolean it reports. The session read is
  assigned to the variable of \<open>data.js\<close>; every record is repaired by \<open>ensureBoxDataShape\<close>,
  the keys are normalized and merged, and the migration runs.
\<close>

definition loadSession :: "string \<Rightarrow> StoredData \<Rightarrow> State \<Rightarrow> State \<times> bool" where
  "loadSession now data st =
     (case data of
        NoData \<Rightarrow> (startNewSession now st, False)
      | Unreadable b \<Rightarrow> (case b of None \<Rightarrow> (st, False) | Some s \<Rightarrow> (assign_session s st, True))
      | StoredSession sid started bs \<Rightarrow>
          (let data1 = (case bs of
                          None \<Rightarrow> \<lparr>session_id = None, startedAt = Some now, boxes = []\<rparr>
                        | Some rs \<Rightarrow>
                            \<lparr>session_id = sid, startedAt = started,
                             boxes = map (\<lambda>(boxKey, boxData). (boxKey, ensureBoxDataShape boxData)) rs\<rparr>)
           in (markExistingBoxesAsCompleted now (assign_session (normalizeSessionBoxes data1) st), True)))"

text \<open>
  The invariant of the specification on one record, in the operational form the code
  keeps: a completed record has a non-empty time, any other record has none. On a stored
  record: it is no object, or it has a non-empty time exactly when its \<open>completed\<close> is
  \<open>true\<close>.
\<close>

definition box_inv :: "BoxData \<Rightarrow> bool" where
  "box_inv b = (if completed b then truthy (completedAt b) else completedAt b = None)"

definition session_inv :: "Session \<Rightarrow> bool" where
  "session_inv s = list_all (\<lambda>(k, b). box_inv b) (boxes s)"

definition stored_inv :: "StoredBox \<Rightarrow> bool" where
  "stored_inv r = (case r of NotAnObject \<Rightarrow> True | StoredBox its c t sl \<Rightarrow> (c = Some True) = truthy t)"

definition data_inv :: "StoredData \<Rightarrow> bool" where
  "data_inv d =
     (case d of
        NoData \<Rightarrow> True
      | Unreadable b \<Rightarrow> (case b of None \<Rightarrow> True | Some s \<Rightarrow> session_inv s)
      | StoredSession sid started bs \<Rightarrow>
          (case bs of None \<Rightarrow> True | Some rs \<Rightarrow> list_all (\<lambda>(k, r). stored_inv r) rs))"

text \<open>ASCII text in an optional value, in the names of items, in a session (keys and item
  names) and in stored data.\<close>

definition ascii_opt :: "string option \<Rightarrow> bool" where
  "ascii_opt v = (case v of None \<Rightarrow> True | Some s \<Rightarrow> ascii s)"

definition ascii_items :: "Item list \<Rightarrow> bool" where
  "ascii_items xs = list_all (\<lambda>i. ascii (name i)) xs"

definition ascii_session :: "Session \<Rightarrow> bool" where
  "ascii_session s = list_all (\<lambda>(k, b). ascii k \<and> ascii_items (items b)) (boxes s)"

definition ascii_data :: "StoredData \<Rightarrow> bool" where
  "ascii_data d =
     (case d of
        NoData \<Rightarrow> True
      | Unreadable b \<Rightarrow> (case b of None \<Rightarrow> True | Some s \<Rightarrow> ascii_session s)
      | StoredSession sid started bs \<Rightarrow>
          (case bs of
             None \<Rightarrow> True
           | Some rs \<Rightarrow>
               list_all (\<lambda>(k, r). ascii k \<and>
                  (case r of NotAnObject \<Rightarrow> True
                   | StoredBox its c t sl \<Rightarrow> (case its of None \<Rightarrow> True | Some xs \<Rightarrow> ascii_items xs))) rs))"

text \<open>
  The states of the application: the state in which the two files are loaded (one empty
  session under both names, no history), and from there every public operation, with
  ASCII texts. \<open>app_load\<close> is a load of stored data in which every record satisfies the
  invariant. The clock yields an ISO time, which is never empty. \<open>app_select\<close> covers what
  \<open>init\<close> and \<open>cancelEdit\<close> do to \<open>currentBox\<close> and \<open>editingItemId\<close>.
\<close>

inductive app_reachable :: "State \<Rightarrow> bool" where
  app_start: "exportedSession st = None \<Longrightarrow> boxes (currentSession st) = [] \<Longrightarrow> history st = []
     \<Longrightarrow> currentBox st = None \<Longrightarrow> editingItemId st = None \<Longrightarrow> app_reachable st"
| app_load: "app_reachable st \<Longrightarrow> now \<noteq> [] \<Longrightarrow> ascii_data d \<Longrightarrow> data_inv d \<Longrightarrow>
     app_reachable (fst (loadSession now d st))"
| app_new: "app_reachable st \<Longrightarrow> app_reachable (startNewSession now st)"
| app_select: "app_reachable st \<Longrightarrow> ascii_opt cb \<Longrightarrow>
     app_reachable (st\<lparr>currentBox := cb, editingItemId := ed\<rparr>)"
| app_switch: "app_reachable st \<Longrightarrow> ascii_opt boxNumber \<Longrightarrow> app_reachable (switchBox boxNumber st)"
| app_toggle: "app_reachable st \<Longrightarrow> now \<noteq> [] \<Longrightarrow> ascii boxNumber \<Longrightarrow>
     app_reachable (toggleBoxComplete now boxNumber st)"
| app_add: "app_reachable st \<Longrightarrow> ascii itemName \<Longrightarrow> addItem now fresh ctx itemName st = Inr st'
     \<Longrightarrow> app_reachable st'"
| app_add_throw: "app_reachable st \<Longrightarrow> ascii itemName \<Longrightarrow>
     addItem now fresh ctx itemName st = Inl (e, st') \<Longrightarrow> app_reachable st'"
| app_delete: "app_reachable st \<Longrightarrow> ascii boxNumber \<Longrightarrow> app_reachable (deleteItem boxNumber itemId st)"
| app_secondary: "app_reachable st \<Longrightarrow> ascii inputValue \<Longrightarrow>
     app_reachable (fst (saveSecondaryLocation inputValue st))"
| app_secondary_set: "app_reachable st \<Longrightarrow> ascii_opt v \<Longrightarrow> app_reachable (setSecondaryLocation v st)"
| app_edit_start: "app_reachable st \<Longrightarrow> ascii boxNumber \<Longrightarrow>
     startEditItem boxNumber itemId st = Inr st' \<Longrightarrow> app_reachable st'"
| app_edit_throw: "app_reachable st \<Longrightarrow> ascii boxNumber \<Longrightarrow>
     startEditItem boxNumber itemId st = Inl (e, st') \<Longrightarrow> app_reachable st'"
| app_edit: "app_reachable st \<Longrightarrow> ascii newName \<Longrightarrow> saveEditedItem newName st = Inr st'
     \<Longrightarrow> app_reachable st'"
| app_record: "app_reachable st \<Longrightarrow> app_reachable (saveStateToHistory st)"
| app_undo: "app_reachable st \<Longrightarrow> undo st = Some (st', ok) \<Longrightarrow> app_reachable st'"
| app_redo: "app_reachable st \<Longrightarrow> redo st = Some (st', ok) \<Longrightarrow> app_reachable st'"

text \<open>The invariant on the entries of a session, and on a state: the session of
  \<open>data.js\<close>, the exported session and every recorded session.\<close>

definition all_inv :: "(string \<times> BoxData) list \<Rightarrow> bool" where
  "all_inv bs = (\<forall>(k, b) \<in> set bs. box_inv b)"

definition state_inv :: "State \<Rightarrow> bool" where
  "state_inv st =
     (session_inv (currentSession st) \<and> session_inv (window_session st) \<and>
      (\<forall>h \<in> set (history st). session_inv h))"

section \<open>Merging, as the specification words it\<close>

text \<open>
  \<open>canon\<close> is the key under which \<open>normalizeSessionBoxes\<close> stores a record. \<open>merge_all\<close>
  merges a sequence of records in order, the first one starting the merged record.
  \<open>first_truthy\<close> is the first value of a sequence that is neither \<open>null\<close> nor empty.
\<close>

definition canon :: "string \<Rightarrow> string" where
  "canon k = key_str (normalizeBoxNumber (Some k))"

definition merge_step :: "BoxData option \<Rightarrow> BoxData \<Rightarrow> BoxData option" where
  "merge_step cur boxData =
     Some (case cur of
             None \<Rightarrow> first_box (ensureBoxDataShape (as_stored boxData))
           | Some existing \<Rightarrow> merge_box existing (ensureBoxDataShape (as_stored boxData)))"

definition merge_all :: "BoxData list \<Rightarrow> BoxData option" where
  "merge_all g = foldl merge_step None g"

definition first_truthy :: "string option list \<Rightarrow> string option" where
  "first_truthy vs = (case find truthy vs of None \<Rightarrow> None | Some v \<Rightarrow> v)"

definition group_of :: "string \<Rightarrow> (string \<times> BoxData) list \<Rightarrow> BoxData list" where
  "group_of c bs = map snd (filter (\<lambda>(k, b). canon k = c) bs)"

definition good_key :: "string \<Rightarrow> bool" where
  "good_key k = (\<not> list_all is_space k \<and> plain_box_number k)"

text \<open>A value is tidy when it is \<open>null\<close> or not empty; a record is clean when its
  completion time and its secondary location are tidy.\<close>

definition tidy :: "string option \<Rightarrow> bool" where
  "tidy v = (v = None \<or> truthy v)"

definition clean :: "BoxData \<Rightarrow> bool" where
  "clean b = (tidy (completedAt b) \<and> tidy (secondaryLocation b))"

text \<open>A small session used to run the operations: the active box \<open>BOX001\<close> holds a
  pen, \<open>BOX002\<close> holds a cup.\<close>

definition item_pen :: Item where
  "item_pen = \<lparr>item_id = 7, name = ''pen'', qty = Some (Fin 1), addedAt = ''t0'',
     isDuplicate = False, tags = []\<rparr>"

definition item_cup :: Item where
  "item_cup = \<lparr>item_id = 8, name = ''cup'', qty = Some (Fin 1), addedAt = ''t1'',
     isDuplicate = False, tags = []\<rparr>"

definition box_pen :: BoxData where
  "box_pen = \<lparr>items = [item_pen], completed = False, completedAt = None, secondaryLocation = None\<rparr>"

definition box_cup :: BoxData where
  "box_cup = \<lparr>items = [item_cup], completed = False, completedAt = None, secondaryLocation = None\<rparr>"

definition example_state :: State where
  "example_state = \<lparr>currentSession = \<lparr>session_id = None, startedAt = None,
       boxes = [(''BOX001'', box_pen), (''BOX002'', box_cup)]\<rparr>,
     exportedSession = None,
     history = [], historyIndex = - 1, currentBox = Some ''BOX001'', editingItemId = None,
     MAX_HISTORY_SIZE = None, migrationDone = True\<rparr>"

text \<open>The same session with both items in the active box, the cup being edited.\<close>

definition edit_state :: State where
  "edit_state = \<lparr>currentSession = \<lparr>session_id = None, startedAt = None,
       boxes = [(''BOX001'', box_pen\<lparr>items := [item_pen, item_cup]\<rparr>)]\<rparr>,
     exportedSession = None,
     history = [], historyIndex = - 1, currentBox = Some ''BOX001'',
     editingItemId = Some (Some ''BOX001'', 8), MAX_HISTORY_SIZE = None, migrationDone = True\<rparr>"

text \<open>
  The states after \<open>switchBox('1')\<close>, \<open>addItem('pen')\<close>, \<open>addItem('cup')\<close> from the initial
  state (\<open>recorded_state\<close>) and after \<open>undo()\<close> then (\<open>undone_state\<close>): the session of \<open>data.js\<close>
  is the copy of the first snapshot, with the pen; the exported session is the object
  that was edited, with the pen and the cup.
\<close>

definition pen_session :: Session where
  "pen_session = \<lparr>session_id = None, startedAt = None, boxes = [(''BOX001'', box_pen)]\<rparr>"

definition pen_cup_session :: Session where
  "pen_cup_session = \<lparr>session_id = None, startedAt = None,
     boxes = [(''BOX001'', box_pen\<lparr>items := [item_pen, item_cup]\<rparr>)]\<rparr>"

definition recorded_state :: State where
  "recorded_state = \<lparr>currentSession = pen_cup_session, exportedSession = None,
     history = [pen_session, pen_cup_session], historyIndex = 1, currentBox = Some ''BOX001'',
     editingItemId = None, MAX_HISTORY_SIZE = None, migrationDone = False\<rparr>"

definition undone_state :: State where
  "undone_state = \<lparr>currentSession = pen_session, exportedSession = Some pen_cup_session,
     history = [pen_session, pen_cup_session], historyIndex = 0, currentBox = Some ''BOX001'',
     editingItemId = None, MAX_HISTORY_SIZE = None, migrationDone = False\<rparr>"

text \<open>
  Stored data: a session saved with a box that has a pen and no flags under the key
  \<open>box 1\<close> and a completed empty box under \<open>BOX001\<close>; and a session whose only record is
  marked completed and has no completion time.
\<close>

definition stored_example :: StoredData where
  "stored_example = StoredSession (Some ''session-1'') (Some ''2023-05-01T08:00:00.000Z'')
     (Some [(''box 1'', StoredBox (Some [item_pen]) None None None),
            (''BOX001'', StoredBox None (Some True) (Some ''2023-05-05T09:30:00.000Z'') None)])"

definition stored_untimed :: StoredData where
  "stored_untimed = StoredSession (Some ''session-1'') (Some ''2023-05-01T08:00:00.000Z'')
     (Some [(''BOX001'', StoredBox (Some []) (Some True) None None)])"

text \<open>Two keys of the same location, both records completed, and a session whose only
  key is a space.\<close>

definition two_key_session :: Session where
  "two_key_session = \<lparr>session_id = None, startedAt = None,
     boxes = [(''Box42'', box_pen\<lparr>completed := True, completedAt := Some ''2024-05-01''\<rparr>),
              (''BOX042'', box_cup\<lparr>completed := True, completedAt := Some ''2023-01-01'',
                                   secondaryLocation := Some ''SHELF 2C''\<rparr>)]\<rparr>"

definition blank_key_session :: Session where
  "blank_key_session = \<lparr>session_id = None, startedAt = None, boxes = [('' '', createEmptyBoxData)]\<rparr>"

text \<open>Two keys of the same location, neither record completed, the second with a
  completion time all the same.\<close>

definition stray_session :: Session where
  "stray_session = \<lparr>session_id = None, startedAt = None,
     boxes = [(''Box42'', box_pen), (''BOX042'', box_cup\<lparr>completedAt := Some ''2023-01-01''\<rparr>)]\<rparr>"

text \<open>Numbered sessions, and a state with three recorded sessions, the cursor at the
  second, and a history bound of 2.\<close>

definition session_no :: "nat \<Rightarrow> Session" where
  "session_no i = \<lparr>session_id = Some (decimal i), startedAt = None, boxes = []\<rparr>"

definition history_state :: State where
  "history_state = \<lparr>currentSession = two_key_session, exportedSession = None,
     history = [session_no 0, session_no 1, session_no 2], historyIndex = 1,
     currentBox = None, editingItemId = None, MAX_HISTORY_SIZE = Some 2, migrationDone = True\<rparr>"

section \<open>Characters, trimming and case\<close>

lemma of_char_eq_iff: "((of_char c :: nat) = of_char d) = (c = d)"
  by (metis char_of_char)

lemma is_space_iff: "is_space c = ((of_char c :: nat) = 32 \<or> (9 \<le> (of_char c :: nat) \<and> (of_char c :: nat) \<le> 13))"
proof -
  have "(c = CHR '' '') = ((of_char c :: nat) = of_char (CHR '' ''))"
    by (simp only: of_char_eq_iff)
  then show ?thesis by (simp add: is_space_def)
qed

lemma of_char_upper:
  "(of_char (upper_char c) :: nat) = (if is_lower c then of_char c - 32 else of_char c)"
proof -
  have "(of_char c :: nat) < 256" by simp
  then have "(of_char c - 32 :: nat) mod 256 = of_char c - 32" by (intro mod_less) arith
  then show ?thesis by (simp add: upper_char_def)
qed

lemma of_char_lower:
  "(of_char (lower_char c) :: nat) = (if is_upper c then of_char c + 32 else of_char c)"
proof -
  have "is_upper c \<Longrightarrow> (of_char c + 32 :: nat) mod 256 = of_char c + 32"
    by (intro mod_less) (simp add: is_upper_def)
  then show ?thesis by (simp add: lower_char_def)
qed

lemma upper_char_idem [simp]: "upper_char (upper_char c) = upper_char c"
  by (auto simp: of_char_eq_iff[symmetric] of_char_upper is_lower_def)

lemma is_space_upper [simp]: "is_space (upper_char c) = is_space c"
  by (auto simp: is_space_iff of_char_upper is_lower_def)

lemma is_digit_upper [simp]: "is_digit (upper_char c) = is_digit c"
  by (auto simp: is_digit_def of_char_upper is_lower_def)

lemma is_alpha_upper [simp]: "is_alpha (upper_char c) = is_alpha c"
  by (auto simp: is_alpha_def is_upper_def of_char_upper is_lower_def)

lemma is_space_lower [simp]: "is_space (lower_char c) = is_space c"
  by (auto simp: is_space_iff of_char_lower is_upper_def)

lemma digit_upper_id: "is_digit c \<Longrightarrow> upper_char c = c"
  by (auto simp: upper_char_def is_lower_def is_digit_def)

lemma space_upper_id: "is_space c \<Longrightarrow> upper_char c = c"
  by (auto simp: upper_char_def is_lower_def is_space_iff)

lemma upper_fixed_alpha: "is_alpha c \<Longrightarrow> upper_char c = c \<Longrightarrow> is_upper c"
  by (auto simp: of_char_eq_iff[symmetric] of_char_upper is_alpha_def is_lower_def is_upper_def split: if_splits)

lemma upper_id: "is_upper c \<Longrightarrow> upper_char c = c"
  by (auto simp: upper_char_def is_lower_def is_upper_def)

lemma digit_not_space: "is_digit c \<Longrightarrow> \<not> is_space c"
  by (auto simp: is_digit_def is_space_iff)

lemma alpha_not_space: "is_alpha c \<Longrightarrow> \<not> is_space c"
  by (auto simp: is_alpha_def is_upper_def is_lower_def is_space_iff)

lemma alpha_not_digit: "is_alpha c \<Longrightarrow> \<not> is_digit c"
  by (auto simp: is_alpha_def is_upper_def is_lower_def is_digit_def)

lemma toUpperCase_idem [simp]: "toUpperCase (toUpperCase s) = toUpperCase s"
  by (simp add: toUpperCase_def)

lemma trim_map_upper: "trim (toUpperCase s) = toUpperCase (trim s)"
  by (simp add: trim_def toUpperCase_def dropWhile_map rev_map comp_def)

lemma trim_map_lower: "trim (toLowerCase s) = toLowerCase (trim s)"
  by (simp add: trim_def toLowerCase_def dropWhile_map rev_map comp_def)

lemma dropWhile_all_iff: "(\<forall>x \<in> set (dropWhile P xs). P x) = (dropWhile P xs = [])"
proof (cases "dropWhile P xs = []")
  case True
  show ?thesis unfolding True by simp
next
  case False
  then have "\<not> P (hd (dropWhile P xs))" by (rule hd_dropWhile)
  moreover have "hd (dropWhile P xs) \<in> set (dropWhile P xs)" using False by simp
  ultimately show ?thesis using False by blast
qed

lemma trim_Nil_iff: "(trim s = []) = (\<forall>c \<in> set s. is_space c)"
  by (simp add: trim_def dropWhile_eq_Nil_conv dropWhile_all_iff)

lemma trim_fixed:
  assumes "s \<noteq> []" "\<not> is_space (hd s)" "\<not> is_space (last s)"
  shows "trim s = s"
proof -
  have "dropWhile is_space s = s" using assms by (cases s) auto
  moreover have "dropWhile is_space (rev s) = rev s"
    using assms by (cases "rev s") (auto simp: last_rev[symmetric] simp del: last_rev dest: arg_cong[where f=hd])
  ultimately show ?thesis by (simp add: trim_def)
qed

lemma trim_ends:
  assumes "trim s \<noteq> []"
  shows "\<not> is_space (hd (trim s))" "\<not> is_space (last (trim s))"
proof -
  let ?d = "dropWhile is_space s"
  have d: "?d \<noteq> []" using assms by (auto simp: trim_Nil_iff dropWhile_eq_Nil_conv)
  then have hd_d: "\<not> is_space (hd ?d)" by (rule hd_dropWhile)
  let ?r = "dropWhile is_space (rev ?d)"
  have r: "?r \<noteq> []" using assms by (auto simp: trim_def)
  then have hr: "\<not> is_space (hd ?r)" by (rule hd_dropWhile)
  have t: "trim s = rev ?r" by (simp add: trim_def)
  show "\<not> is_space (last (trim s))" using hr r by (simp add: t last_rev)
  have "\<exists>zs. rev ?d = takeWhile is_space (rev ?d) @ ?r" by simp
  then have "?d = rev ?r @ rev (takeWhile is_space (rev ?d))"
    by (metis rev_append rev_rev_ident takeWhile_dropWhile_id)
  then have "hd ?d = hd (rev ?r)" using r by (metis hd_append2 rev_is_Nil_conv)
  then show "\<not> is_space (hd (trim s))" using hd_d by (simp add: t)
qed

lemma trim_idem [simp]: "trim (trim s) = trim s"
proof (cases "trim s = []")
  case True
  show ?thesis unfolding True by (simp add: trim_def)
next
  case False
  then show ?thesis using trim_ends[OF False] by (intro trim_fixed)
qed

section \<open>Properties of the location normalizer\<close>

lemma span_app:
  assumes "\<forall>x \<in> set xs. P x" "ys = [] \<or> \<not> P (hd ys)"
  shows "takeWhile P (xs @ ys) = xs" "dropWhile P (xs @ ys) = ys"
  using assms by (cases ys; simp add: takeWhile_append2 dropWhile_append2)+

lemma shelf_pattern_SomeI:
  assumes "length p = length P" "toUpperCase p = toUpperCase P"
    and "\<forall>c \<in> set ws. is_space c" "ds \<noteq> []" "\<forall>c \<in> set ds. is_digit c" "\<forall>c \<in> set ls. is_alpha c"
  shows "shelf_pattern P (p @ ws @ ds @ ls) = Some (ds, ls)"
proof -
  have hd_ds: "is_digit (hd ds)" using assms by (cases ds) auto
  have a: "dropWhile is_space (ws @ ds @ ls) = ds @ ls"
    using assms hd_ds by (intro span_app) (auto simp: digit_not_space)
  have b: "takeWhile is_digit (ds @ ls) = ds" "dropWhile is_digit (ds @ ls) = ls"
    using assms by (intro span_app; cases ls; auto simp: alpha_not_digit)+
  have c: "takeWhile is_alpha ls = ls" "dropWhile is_alpha ls = []"
    using assms by auto
  show ?thesis
    using assms by (simp add: shelf_pattern_def a b c Let_def)
qed

lemma shelf_pattern_SomeD:
  assumes "shelf_pattern P u = Some (ds, ls)"
  shows "\<exists>p ws. u = p @ ws @ ds @ ls \<and> toUpperCase p = toUpperCase P \<and>
           (\<forall>c \<in> set ws. is_space c) \<and> ds \<noteq> [] \<and> (\<forall>c \<in> set ds. is_digit c) \<and> (\<forall>c \<in> set ls. is_alpha c)"
proof -
  let ?n = "length P"
  let ?r = "dropWhile is_space (drop ?n u)"
  let ?r2 = "dropWhile is_digit ?r"
  from assms have up: "toUpperCase (take ?n u) = toUpperCase P"
    and ds: "ds = takeWhile is_digit ?r" and ls: "ls = takeWhile is_alpha ?r2"
    and ne: "ds \<noteq> []" and r3: "dropWhile is_alpha ?r2 = []"
    by (auto simp: shelf_pattern_def Let_def split: if_splits)
  have "?r2 = ls" using r3 ls by (metis append_Nil2 takeWhile_dropWhile_id)
  then have "?r = ds @ ls" using ds by (metis takeWhile_dropWhile_id)
  then have "drop ?n u = takeWhile is_space (drop ?n u) @ ds @ ls"
    by (metis takeWhile_dropWhile_id)
  then have "u = take ?n u @ takeWhile is_space (drop ?n u) @ ds @ ls"
    by (metis append_take_drop_id)
  moreover have "\<forall>c \<in> set (takeWhile is_space (drop ?n u)). is_space c"
    by (auto dest: set_takeWhileD)
  moreover have "\<forall>c \<in> set ds. is_digit c" "\<forall>c \<in> set ls. is_alpha c"
    unfolding ds ls by (auto dest: set_takeWhileD)
  ultimately show ?thesis using up ne by blast
qed

lemma first_digits_SomeI:
  assumes "\<forall>c \<in> set a. \<not> is_digit c" "ds \<noteq> []" "\<forall>c \<in> set ds. is_digit c" "b = [] \<or> \<not> is_digit (hd b)"
  shows "first_digits (a @ ds @ b) = Some ds"
proof -
  have "is_digit (hd ds)" using assms by (cases ds) auto
  then have "dropWhile (\<lambda>c. \<not> is_digit c) (a @ ds @ b) = ds @ b"
    using assms by (intro span_app) auto
  moreover have "takeWhile is_digit (ds @ b) = ds"
    using assms by (intro span_app) auto
  ultimately show ?thesis using assms(2) by (simp add: first_digits_def)
qed

lemma first_digits_None_iff: "(first_digits u = None) = (\<forall>c \<in> set u. \<not> is_digit c)"
  by (simp add: first_digits_def Let_def)

lemma first_digits_SomeD:
  assumes "first_digits u = Some ds"
  shows "ds \<noteq> []" "\<forall>c \<in> set ds. is_digit c"
    "\<exists>a b. u = a @ ds @ b \<and> (\<forall>c \<in> set a. \<not> is_digit c) \<and> (b = [] \<or> \<not> is_digit (hd b))"
proof -
  let ?r = "dropWhile (\<lambda>c. \<not> is_digit c) u"
  from assms have r: "?r \<noteq> []" and ds: "ds = takeWhile is_digit ?r"
    by (auto simp: first_digits_def Let_def split: if_splits simp del: dropWhile_eq_Nil_conv)
  have "\<not> \<not> is_digit (hd ?r)" using r by (rule hd_dropWhile)
  then show "ds \<noteq> []" using r unfolding ds by (cases ?r) auto
  show "\<forall>c \<in> set ds. is_digit c" unfolding ds by (auto dest: set_takeWhileD)
  have "u = takeWhile (\<lambda>c. \<not> is_digit c) u @ ds @ dropWhile is_digit ?r"
    unfolding ds by simp
  moreover have "\<forall>c \<in> set (takeWhile (\<lambda>c. \<not> is_digit c) u). \<not> is_digit c"
    by (auto dest: set_takeWhileD)
  moreover have "dropWhile is_digit ?r = [] \<or> \<not> is_digit (hd (dropWhile is_digit ?r))"
    using hd_dropWhile[of is_digit ?r] by blast
  ultimately show "\<exists>a b. u = a @ ds @ b \<and> (\<forall>c \<in> set a. \<not> is_digit c) \<and> (b = [] \<or> \<not> is_digit (hd b))"
    by blast
qed

lemma digit_char_props:
  assumes "d < 10"
  shows "is_digit (digit_char d)" "digit_val (digit_char d) = d"
proof -
  have "(48 + d) mod 256 = 48 + d" using assms by simp
  then have "(of_char (digit_char d) :: nat) = 48 + d" by (simp add: digit_char_def)
  then show "is_digit (digit_char d)" "digit_val (digit_char d) = d"
    using assms by (simp_all add: is_digit_def digit_val_def)
qed

lemma digits_value_snoc: "digits_value (xs @ [c]) = 10 * digits_value xs + digit_val c"
  by (simp add: digits_value_def)

lemma digits_value_decimal [simp]: "digits_value (decimal n) = n"
proof (induction n rule: decimal.induct)
  case (1 n)
  show ?case
  proof (cases "n < 10")
    case True
    then show ?thesis by (simp add: decimal.simps[of n] digits_value_def digit_char_props)
  next
    case False
    then show ?thesis using 1
      by (simp add: decimal.simps[of n] digits_value_snoc digit_char_props)
  qed
qed

lemma decimal_digits: "c \<in> set (decimal n) \<Longrightarrow> is_digit c"
proof (induction n rule: decimal.induct)
  case (1 n)
  then show ?case
    by (cases "n < 10") (auto simp: decimal.simps[of n] digit_char_props)
qed

lemma decimal_nonempty [simp]: "decimal n \<noteq> []"
  by (cases "n < 10") (simp_all add: decimal.simps[of n])

lemma foldl_zeros: "foldl (\<lambda>acc c. 10 * acc + digit_val c) 0 (replicate k (CHR ''0'')) = 0"
  by (induction k) (simp_all add: digit_val_def)

lemma digits_value_zeros [simp]: "digits_value (replicate k (CHR ''0'') @ ds) = digits_value ds"
  by (simp add: digits_value_def foldl_zeros)

lemma is_digit_zero [simp]: "is_digit (CHR ''0'')"
  by (simp add: is_digit_def)

lemma padStart3_props:
  "digits_value (padStart3 ds) = digits_value ds"
  "(\<forall>c \<in> set (padStart3 ds). is_digit c) = (\<forall>c \<in> set ds. is_digit c)"
  "ds \<noteq> [] \<Longrightarrow> padStart3 ds \<noteq> []"
  by (auto simp: padStart3_def)

lemma to_number_small: "n < 2 ^ 53 \<Longrightarrow> to_number n = Fin n"
  by (simp add: to_number_def)

lemma number_toString_small: "n < 2 ^ 53 \<Longrightarrow> number_toString (Fin n) = decimal n"
  by (simp add: number_toString_def)

lemma upper_literals [simp]:
  "toUpperCase ''SHELF'' = ''SHELF''" "toUpperCase ''S'' = ''S''"
  "toUpperCase ''SHELF '' = ''SHELF ''" "toUpperCase ''BOX'' = ''BOX''"
  by (simp_all add: toUpperCase_def upper_char_def is_lower_def)

lemma shelf_pattern_form:
  assumes "shelf_pattern ''SHELF'' u = Some (ds, ls) \<or> shelf_pattern ''S'' u = Some (ds, ls)"
  shows "shelf_form u ds ls"
proof -
  from assms obtain P where P: "P = ''SHELF'' \<or> P = ''S''" and m: "shelf_pattern P u = Some (ds, ls)"
    by blast
  from shelf_pattern_SomeD[OF m] obtain p ws where
    "u = p @ ws @ ds @ ls" "toUpperCase p = toUpperCase P" "\<forall>c \<in> set ws. is_space c"
    "ds \<noteq> []" "\<forall>c \<in> set ds. is_digit c" "\<forall>c \<in> set ls. is_alpha c"
    by blast
  moreover have "toUpperCase P = ''SHELF'' \<or> toUpperCase P = ''S''" using P by auto
  ultimately show ?thesis
    unfolding shelf_form_def list_all_iff by metis
qed

lemma toUpperCase_length: "toUpperCase p = q \<Longrightarrow> length p = length q"
  by (auto simp: toUpperCase_def)

lemma form_shelf_pattern:
  assumes "shelf_form u ds ls"
  shows "shelf_pattern ''SHELF'' u = Some (ds, ls) \<or>
         (shelf_pattern ''SHELF'' u = None \<and> shelf_pattern ''S'' u = Some (ds, ls))"
proof -
  from assms obtain p ws where u: "u = p @ ws @ ds @ ls"
    and p: "toUpperCase p = ''SHELF'' \<or> toUpperCase p = ''S''"
    and ws: "\<forall>c \<in> set ws. is_space c" and ne: "ds \<noteq> []"
    and ds: "\<forall>c \<in> set ds. is_digit c" and ls: "\<forall>c \<in> set ls. is_alpha c"
    by (auto simp: shelf_form_def list_all_iff)
  from p show ?thesis
  proof
    assume a: "toUpperCase p = ''SHELF''"
    have "shelf_pattern ''SHELF'' (p @ ws @ ds @ ls) = Some (ds, ls)"
      using a ws ne ds ls by (intro shelf_pattern_SomeI) (auto dest: toUpperCase_length)
    then show ?thesis by (simp add: u)
  next
    assume a: "toUpperCase p = ''S''"
    then obtain c where pc: "p = [c]" by (cases p) (auto simp: toUpperCase_def)
    have s: "shelf_pattern ''S'' (p @ ws @ ds @ ls) = Some (ds, ls)"
      using a ws ne ds ls by (intro shelf_pattern_SomeI) (auto dest: toUpperCase_length)
    obtain x rest where r: "ws @ ds @ ls = x # rest" and x: "is_space x \<or> is_digit x"
      using ne ws ds by (cases ws; cases ds) auto
    have "upper_char x \<noteq> CHR ''H''"
    proof
      assume "upper_char x = CHR ''H''"
      then have "is_space (CHR ''H'') \<or> is_digit (CHR ''H'')"
        using x by (metis is_space_upper is_digit_upper)
      then show False by (simp add: is_space_iff is_digit_def)
    qed
    then have neq: "toUpperCase (take (length ''SHELF'') (c # x # rest)) \<noteq> toUpperCase ''SHELF''"
      by (simp add: toUpperCase_def upper_char_def[of "CHR ''H''"] is_lower_def)
    have u': "u = c # x # rest" using u pc r by simp
    have "shelf_pattern ''SHELF'' u = None"
      unfolding shelf_pattern_def u' using neq by (simp only: if_False)
    then show ?thesis using s by (simp add: u)
  qed
qed

lemma no_form_patterns:
  assumes "\<forall>ds ls. \<not> shelf_form u ds ls"
  shows "shelf_pattern ''SHELF'' u = None" "shelf_pattern ''S'' u = None"
  using assms shelf_pattern_form[of u] by (metis not_Some_eq prod.exhaust_sel)+

lemma normalize_shelf:
  assumes "s \<noteq> []" "shelf_form (trim (toUpperCase s)) ds ls"
  shows "normalizeBoxNumber (Some s) = Some (''SHELF '' @ ds @ ls)"
  using assms(1) form_shelf_pattern[OF assms(2)]
  by (auto simp: normalizeBoxNumber_def Let_def)

lemma normalize_box:
  assumes "s \<noteq> []" "\<forall>ds ls. \<not> shelf_form (trim (toUpperCase s)) ds ls"
    "first_digits (trim (toUpperCase s)) = Some ds"
  shows "normalizeBoxNumber (Some s) = Some (''BOX'' @ padStart3 (number_toString (parseInt10 ds)))"
  using assms(1,3) no_form_patterns[OF assms(2)]
  by (simp add: normalizeBoxNumber_def Let_def)

lemma normalize_fallback:
  assumes "s \<noteq> []" "\<forall>ds ls. \<not> shelf_form (trim (toUpperCase s)) ds ls"
    "first_digits (trim (toUpperCase s)) = None"
  shows "normalizeBoxNumber (Some s) = Some (trim (toUpperCase s))"
  using assms(1,3) no_form_patterns[OF assms(2)]
  by (simp add: normalizeBoxNumber_def Let_def)

lemma digit_run_first_digits: "digit_run u ds = (first_digits u = Some ds)"
proof
  assume "digit_run u ds"
  then show "first_digits u = Some ds"
    by (auto simp: digit_run_def list_all_iff intro!: first_digits_SomeI)
next
  assume a: "first_digits u = Some ds"
  show "digit_run u ds"
    using first_digits_SomeD[OF a] by (auto simp: digit_run_def list_all_iff)
qed

lemma char_of_eq_iff: "(char_of (n::nat) = c) = (n mod 256 = of_char c)"
  by (metis of_char_of char_of_char)

lemma eq_char_of_iff: "(c = char_of (n::nat)) = (n mod 256 = of_char c)"
  by (metis of_char_of char_of_char)

lemmas char_defs = char_of_eq_iff eq_char_of_iff is_space_def is_digit_def is_upper_def is_lower_def is_alpha_def
  upper_char_def lower_char_def toUpperCase_def toLowerCase_def trim_def

lemmas num_defs = to_number_def digit_val_def digits_value_def parseInt10_def digit_char_def
  number_toString_def padStart3_def decimal.simps

lemmas norm_defs = normalizeBoxNumber_def normalizeShelfLocation_def shelf_pattern_def first_digits_def Let_def

lemma normalize_example_1: "normalizeBoxNumber (Some ''shelf 2c'') = Some ''SHELF 2C''"
  by (simp add: norm_defs char_defs num_defs)
lemma normalize_example_2: "normalizeBoxNumber (Some ''SHELF2C'') = Some ''SHELF 2C''"
  by (simp add: norm_defs char_defs num_defs)
lemma normalize_example_3: "normalizeBoxNumber (Some ''s 2c'') = Some ''SHELF 2C''"
  by (simp add: norm_defs char_defs num_defs)
lemma normalize_example_4: "normalizeBoxNumber (Some ''S2C'') = Some ''SHELF 2C''"
  by (simp add: norm_defs char_defs num_defs)
lemma normalize_example_5: "normalizeBoxNumber (Some ''box42'') = Some ''BOX042''"
  by (simp add: norm_defs char_defs num_defs)
lemma normalize_example_6: "normalizeBoxNumber (Some ''B042'') = Some ''BOX042''"
  by (simp add: norm_defs char_defs num_defs)
lemma normalize_example_7: "normalizeBoxNumber (Some ''42'') = Some ''BOX042''"
  by (simp add: norm_defs char_defs num_defs)
lemma normalize_example_8: "normalizeBoxNumber (Some ''BOX 042'') = Some ''BOX042''"
  by (simp add: norm_defs char_defs num_defs)
lemma normalize_example_9: "normalizeBoxNumber (Some '' abc '') = Some ''ABC''"
  by (simp add: norm_defs char_defs num_defs)

lemma huge_value: "digits_value ''1000000000000000000000'' = 1000000000000000000000"
  by (simp add: digits_value_def digit_val_def)
lemma huge_bitlen: "bitlen 1000000000000000000000 = 70"
  by (simp add: bitlen.simps)
lemma huge_to_number: "to_number 1000000000000000000000 = Fin 1000000000000000000000"
  by (simp add: to_number_def huge_bitlen Let_def)
lemma huge_length: "length (decimal 1000000000000000000000) = 22"
  by (simp add: decimal.simps)
lemma huge_candidates: "candidates 1000000000000000000000 22 (Suc 0) = [(0, Suc 0, 22)]"
  by (simp add: candidates_def candidates_at_def candidate_def huge_to_number Let_def to_number_def bitlen.simps)


lemma shortest_found:
  "candidates v nd k = c # cs \<Longrightarrow> 0 < fuel \<Longrightarrow>
     shortest v nd k fuel = (case closest c cs of (d, s, n) \<Rightarrow> Some (s, n))"
  by (cases fuel) simp_all
lemma huge_shortest: "shortest 1000000000000000000000 22 (Suc 0) 22 = Some (Suc 0, 22)"
  by (simp add: shortest_found[OF huge_candidates])
lemma decimal_1_21: "decimal (Suc 0) = ''1''" "decimal 21 = ''21''"
  by (simp_all add: decimal.simps digit_char_def char_of_eq_iff eq_char_of_iff)
lemma huge_toString: "number_toString (Fin 1000000000000000000000) = ''1e+21''"
  by (simp add: number_toString_def huge_length huge_shortest Let_def decimal_1_21)
lemma normalize_huge: "normalizeBoxNumber (Some ''1000000000000000000000'') = Some ''BOX1e+21''"
  by (simp add: normalizeBoxNumber_def shelf_pattern_def first_digits_def Let_def char_defs parseInt10_def huge_value huge_to_number huge_toString padStart3_def)
lemma padStart3_simps:
  "padStart3 [a] = [CHR ''0'', CHR ''0'', a]"
  "padStart3 [a, b] = [CHR ''0'', a, b]"
  "padStart3 (a # b # c # ds) = a # b # c # ds"
  by (simp_all add: padStart3_def numeral_3_eq_3)
lemma normalize_huge_again: "normalizeBoxNumber (Some ''BOX1e+21'') = Some ''BOX001''"
  by (simp add: norm_defs char_defs to_number_def digit_val_def digits_value_def parseInt10_def digit_char_def
  number_toString_def decimal.simps padStart3_simps)

lemma bitlen_bounds: "0 < n \<Longrightarrow> 2 ^ (bitlen n - 1) \<le> n \<and> n < 2 ^ bitlen n"
proof (induction n rule: bitlen.induct)
  case (1 n)
  show ?case
  proof (cases "n div 2 = 0")
    case True
    then have "n = 1" using 1 by (simp add: div_eq_0_iff) 
    then show ?thesis by (simp add: bitlen.simps[of "Suc 0"] bitlen.simps[of 0])
  next
    case False
    then have pos: "0 < n div 2" by simp
    have ih: "2 ^ (bitlen (n div 2) - 1) \<le> n div 2 \<and> n div 2 < 2 ^ bitlen (n div 2)"
      using 1 pos by simp
    have bl: "bitlen n = Suc (bitlen (n div 2))" using 1 by (simp add: bitlen.simps[of n])
    have b1: "0 < bitlen (n div 2)" using pos by (simp add: bitlen.simps[of "n div 2"])
    then obtain j where j: "bitlen (n div 2) = Suc j" by (cases "bitlen (n div 2)") auto
    have aux: "\<And>m. m \<le> n div 2 \<Longrightarrow> 2 * m \<le> n" "\<And>m. n div 2 < m \<Longrightarrow> n < 2 * m"
      by arith+
    have "2 * 2 ^ j \<le> n" using ih j by (intro aux) simp
    moreover have "n < 2 * 2 ^ Suc j" using ih j by (intro aux) simp
    ultimately show ?thesis by (simp add: bl j)
  qed
qed

lemma bitlen_unique:
  assumes "2 ^ (b - 1) \<le> n" "n < 2 ^ b" "0 < b"
  shows "bitlen n = b"
proof -
  have n: "0 < n" using assms(1) by (metis less_le_trans zero_less_numeral zero_less_power)
  from bitlen_bounds[OF n] have lo: "2 ^ (bitlen n - 1) \<le> n" and hi: "n < 2 ^ bitlen n" by simp_all
  have "(2::nat) ^ (bitlen n - 1) < 2 ^ b" using lo assms(2) by (rule le_less_trans)
  then have a: "bitlen n - 1 < b" using power_less_imp_less_exp[of 2 "bitlen n - 1" b] by simp
  have "(2::nat) ^ (b - 1) < 2 ^ bitlen n" using assms(1) hi by (rule le_less_trans)
  then have "b - 1 < bitlen n" using power_less_imp_less_exp[of 2 "b - 1" "bitlen n"] by simp
  then show ?thesis using a assms(3) by simp
qed

lemma to_number_exact:
  assumes "\<not> m < 2 ^ 53" "bitlen m - 53 = e" "m mod 2 ^ e = 0" "0 < e" "\<not> 2 ^ 1024 \<le> m"
  shows "to_number m = Fin m"
proof -
  have h: "(0::nat) < 2 ^ (e - 1)" by simp
  have d: "m div 2 ^ e * 2 ^ e = m" using assms(3) by (metis add.right_neutral div_mult_mod_eq)
  show ?thesis
    unfolding to_number_def Let_def assms(2)
    using assms(1,5) h by (simp add: assms(3) d)
qed

lemma to_number_idem:
  assumes "to_number n = Fin v"
  shows "to_number v = Fin v"
proof (cases "n < 2 ^ 53")
  case True
  then show ?thesis using assms by (simp add: to_number_def)
next
  case False
  define b where "b = bitlen n"
  define e where "e = b - 53"
  define q where "q = n div 2 ^ e"
  define q' where "q' = (if 2 ^ (e - 1) < n mod 2 ^ e \<or> (n mod 2 ^ e = 2 ^ (e - 1) \<and> odd q) then q + 1 else q)"
  have n: "0 < n" using False by (cases n) auto
  from bitlen_bounds[OF n] have lo: "2 ^ (b - 1) \<le> n" and hi: "n < 2 ^ b" by (simp_all add: b_def)
  have "(2::nat) ^ 53 < 2 ^ b" using False hi by simp
  then have b53: "53 < b" using power_less_imp_less_exp[of 2 53 b] by simp
  then have e1: "1 \<le> e" and be: "b = 53 + e" by (simp_all add: e_def)
  have "to_number n = (if 2 ^ 1024 \<le> q' * 2 ^ e then Infinity else Fin (q' * 2 ^ e))"
    using False unfolding b_def e_def q_def q'_def to_number_def Let_def by (simp only: if_False)
  then have v: "v = q' * 2 ^ e" and vlt: "\<not> 2 ^ 1024 \<le> v"
    using assms by (auto split: if_splits)
  have pb1: "(2::nat) ^ (b - 1) = 2 ^ 52 * 2 ^ e" by (simp add: be power_add)
  have pb: "(2::nat) ^ b = 2 ^ 53 * 2 ^ e" by (simp add: be power_add)
  have "n < 2 ^ 53 * 2 ^ e" using hi by (simp only: pb)
  then have qhi: "q < 2 ^ 53" unfolding q_def by (rule less_mult_imp_div_less)
  have "2 ^ 52 * 2 ^ e \<le> n" using lo by (simp only: pb1)
  then have qlo: "2 ^ 52 \<le> q" unfolding q_def by (simp only: less_eq_div_iff_mult_less_eq zero_less_power zero_less_numeral)
  have q'lo: "2 ^ 52 \<le> q'" and q'hi: "q' \<le> 2 ^ 53" using qlo qhi by (auto simp: q'_def)
  have vbig: "\<not> v < 2 ^ 53"
  proof -
    have "(2::nat) ^ 1 \<le> 2 ^ e" using e1 by (intro power_increasing) simp_all
    then have "(2::nat) ^ 52 * 2 ^ 1 \<le> q' * 2 ^ e" using q'lo by (intro mult_mono) simp_all
    then show ?thesis by (simp add: v)
  qed
  show ?thesis
  proof (cases "q' < 2 ^ 53")
    case True
    have "2 ^ (b - 1) \<le> v" using q'lo unfolding pb1 v by (intro mult_right_mono) simp_all
    moreover have "v < 2 ^ b" using True unfolding pb v by (intro mult_strict_right_mono) simp_all
    ultimately have bl: "bitlen v = b" using b53 by (intro bitlen_unique) simp_all
    have "bitlen v - 53 = e" by (simp add: bl e_def)
    moreover have "v mod 2 ^ e = 0" by (simp add: v)
    ultimately show ?thesis using vbig vlt e1 by (intro to_number_exact[where e=e]) simp_all
  next
    case False
    then have q2: "q' = 2 ^ 53" using q'hi by simp
    have v2: "v = 2 ^ (b + 1 - 1)" using pb by (simp add: v q2)
    have "bitlen v = b + 1" unfolding v2 by (intro bitlen_unique) simp_all
    then have bl: "bitlen v - 53 = Suc e" by (simp add: be)
    have vv: "v = 2 ^ 52 * 2 ^ Suc e" by (simp add: v q2)
    have "v mod 2 ^ Suc e = 0" unfolding vv by simp
    then show ?thesis using vbig vlt bl by (intro to_number_exact[where e="Suc e"]) simp_all
  qed
qed

lemma closest_mem: "closest c cs \<in> set (c # cs)"
  by (induction c cs rule: closest.induct) auto

lemma candidates_props:
  assumes "(d, s, n) \<in> set (candidates v nd k)"
  shows "k \<le> n \<and> 10 ^ (k - 1) \<le> s \<and> s < 10 ^ k \<and> to_number (s * 10 ^ (n - k)) = Fin v"
proof -
  have c: "k' \<le> n' \<Longrightarrow> (d, s, n) \<in> set (candidate v k' n' s') \<Longrightarrow>
        k' \<le> n \<and> 10 ^ (k' - 1) \<le> s \<and> s < 10 ^ k' \<and> to_number (s * 10 ^ (n - k')) = Fin v"
    for k' n' s'
    by (cases "10 ^ (k' - 1) \<le> s' \<and> s' < 10 ^ k' \<and> to_number (s' * 10 ^ (n' - k')) = Fin v")
       (simp_all add: candidate_def Let_def)
  have a: "(d, s, n) \<in> set (candidates_at v k n') \<Longrightarrow>
        k \<le> n \<and> 10 ^ (k - 1) \<le> s \<and> s < 10 ^ k \<and> to_number (s * 10 ^ (n - k)) = Fin v" for n'
  proof (cases "n' < k")
    case True
    then show "(d, s, n) \<in> set (candidates_at v k n') \<Longrightarrow> ?thesis" by (simp add: candidates_at_def)
  next
    case False
    then have kn: "k \<le> n'" by simp
    assume "(d, s, n) \<in> set (candidates_at v k n')"
    then have "(d, s, n) \<in> set (candidate v k n' (v div 10 ^ (n' - k))) \<or>
               (d, s, n) \<in> set (candidate v k n' (v div 10 ^ (n' - k) + 1))"
      using False by (simp add: candidates_at_def)
    then show ?thesis using c[OF kn] by blast
  qed
  show ?thesis using assms by (auto simp: candidates_def dest: a)
qed

lemma shortest_SomeD:
  "shortest v nd k fuel = Some (s, n) \<Longrightarrow> \<exists>k' d. (d, s, n) \<in> set (candidates v nd k')"
proof (induction fuel arbitrary: k)
  case 0
  then show ?case by simp
next
  case (Suc fuel)
  show ?case
  proof (cases "candidates v nd k")
    case Nil
    then show ?thesis using Suc by simp
  next
    case (Cons c cs)
    obtain d' s' n' where cl: "closest c cs = (d', s', n')" by (cases "closest c cs") auto
    then have "(d', s', n') \<in> set (candidates v nd k)" using closest_mem[of c cs] Cons by simp
    moreover have "s' = s" "n' = n" using Suc.prems Cons cl by simp_all
    ultimately show ?thesis by blast
  qed
qed

lemma decimal_length: "0 < k \<Longrightarrow> 10 ^ (k - 1) \<le> s \<Longrightarrow> s < 10 ^ k \<Longrightarrow> length (decimal s) = k"
proof (induction k arbitrary: s)
  case 0
  then show ?case by simp
next
  case (Suc k)
  show ?case
  proof (cases k)
    case 0
    then show ?thesis using Suc.prems by (simp add: decimal.simps[of s])
  next
    case (Suc j)
    have "(10::nat) ^ 1 \<le> 10 ^ k" using Suc by (intro power_increasing) simp_all
    then have s10: "\<not> s < 10" using Suc.prems(2) by simp
    have "10 ^ (k - 1) \<le> s div 10" using Suc.prems(2) Suc
      by (simp add: less_eq_div_iff_mult_less_eq mult.commute)
    moreover have "s div 10 < 10 ^ k" using Suc.prems(3)
      by (simp add: less_mult_imp_div_less mult.commute)
    ultimately have "length (decimal (s div 10)) = k" using Suc by (intro Suc.IH) simp_all
    then show ?thesis using s10 by (simp add: decimal.simps[of s])
  qed
qed

lemma digits_value_app_zeros: "digits_value (ds @ replicate m (CHR ''0'')) = digits_value ds * 10 ^ m"
proof (induction m)
  case 0
  then show ?case by simp
next
  case (Suc m)
  have "ds @ replicate (Suc m) (CHR ''0'') = (ds @ replicate m (CHR ''0'')) @ [CHR ''0'']"
    by (simp add: replicate_append_same)
  then show ?case using Suc by (simp only: digits_value_snoc) (simp add: digit_val_def)
qed

lemma not_digit_literals: "\<not> is_digit (CHR ''e'')" "\<not> is_digit (CHR ''I'')" "\<not> is_digit (CHR ''.'')"
  by (simp_all add: is_digit_def)

lemma roundtrip:
  assumes "list_all is_digit (number_toString (to_number m))"
  shows "to_number (digits_value (number_toString (to_number m))) = to_number m"
proof (cases "to_number m")
  case Infinity
  then show ?thesis using assms by (simp add: number_toString_def not_digit_literals)
next
  case (Fin v)
  have idem: "to_number v = Fin v" using Fin by (rule to_number_idem)
  show ?thesis
  proof (cases "v < 2 ^ 53")
    case True
    then show ?thesis using idem by (simp add: Fin number_toString_def)
  next
    case False
    let ?nd = "length (decimal v)"
    show ?thesis
    proof (cases "shortest v ?nd (Suc 0) ?nd")
      case None
      then show ?thesis using False idem by (simp add: Fin number_toString_def)
    next
      case (Some sn)
      obtain s n where sn: "sn = (s, n)" by (cases sn) auto
      from shortest_SomeD[OF Some[unfolded sn]] obtain k d
        where "(d, s, n) \<in> set (candidates v ?nd k)" by blast
      from candidates_props[OF this]
      have kn: "k \<le> n" and lo: "10 ^ (k - 1) \<le> s" and hi: "s < 10 ^ k"
        and r: "to_number (s * 10 ^ (n - k)) = Fin v" by simp_all
      have k0: "0 < k" using lo hi by (cases k) auto
      have len: "length (decimal s) = k" using k0 lo hi by (rule decimal_length)
      show ?thesis
      proof (cases "n \<le> 21")
        case True
        then have "number_toString (Fin v) = decimal s @ replicate (n - k) (CHR ''0'')"
          using False by (simp add: number_toString_def Some sn Let_def len)
        then show ?thesis using r by (simp add: Fin digits_value_app_zeros)
      next
        case n21: False
        have "CHR ''e'' \<in> set (number_toString (Fin v))"
          using False n21 by (simp add: number_toString_def Some sn Let_def len)
        then have "\<not> list_all is_digit (number_toString (Fin v))"
          using not_digit_literals(1) by (auto simp: list_all_iff)
        then show ?thesis using assms by (simp add: Fin)
      qed
    qed
  qed
qed

lemma toUpperCase_append: "toUpperCase (a @ b) = toUpperCase a @ toUpperCase b"
  by (simp add: toUpperCase_def)

lemma toUpperCase_fixed: "(\<forall>c \<in> set a. upper_char c = c) \<Longrightarrow> toUpperCase a = a"
  by (simp add: toUpperCase_def map_idI)

lemma not_space_literals: "\<not> is_space (CHR ''S'')" "\<not> is_space (CHR ''B'')"
  by (simp_all add: is_space_iff)

lemma normalizeShelf_None_iff:
  "s \<noteq> [] \<Longrightarrow> (normalizeShelfLocation (Some s) = None) = (\<forall>ds ls. \<not> shelf_form (trim (toUpperCase s)) ds ls)"
proof
  assume s: "s \<noteq> []" and n: "normalizeShelfLocation (Some s) = None"
  show "\<forall>ds ls. \<not> shelf_form (trim (toUpperCase s)) ds ls"
  proof (intro allI notI)
    fix ds ls assume "shelf_form (trim (toUpperCase s)) ds ls"
    from form_shelf_pattern[OF this] show False
      using s n by (auto simp: normalizeShelfLocation_def Let_def)
  qed
next
  assume s: "s \<noteq> []" and n: "\<forall>ds ls. \<not> shelf_form (trim (toUpperCase s)) ds ls"
  show "normalizeShelfLocation (Some s) = None"
    using s no_form_patterns[OF n] by (simp add: normalizeShelfLocation_def Let_def)
qed

lemma canonical_shelf_form:
  assumes ne: "ds \<noteq> []" and ds: "\<forall>c \<in> set ds. is_digit c"
    and ls: "\<forall>c \<in> set ls. is_alpha c \<and> upper_char c = c"
  shows "shelf_form (trim (toUpperCase (''SHELF '' @ ds @ ls))) ds ls"
proof -
  define r where "r = ''SHELF '' @ ds @ ls"
  have rne: "r \<noteq> []" and hd: "hd r = CHR ''S''" by (simp_all add: r_def)
  have up: "toUpperCase r = r"
    unfolding r_def toUpperCase_append using ds ls by (simp add: toUpperCase_fixed digit_upper_id)
  have "last r = last (ds @ ls)" using ne by (simp add: r_def)
  moreover have "last (ds @ ls) \<in> set (ds @ ls)" using ne by (intro last_in_set) simp
  ultimately have "\<not> is_space (last r)"
    using ds ls by (auto simp: digit_not_space alpha_not_space)
  then have tr: "trim r = r"
    using rne by (intro trim_fixed) (simp_all add: hd not_space_literals)
  have "shelf_form r ds ls"
    unfolding shelf_form_def r_def
    using ne ds ls
    by (intro exI[of _ "''SHELF''"] exI[of _ "'' ''"]) (simp add: list_all_iff is_space_def)
  then have "shelf_form (trim (toUpperCase r)) ds ls" by (simp add: up tr)
  then show ?thesis by (simp only: r_def)
qed

lemma fixed_shelf:
  assumes ne: "ds \<noteq> []" and ds: "\<forall>c \<in> set ds. is_digit c"
    and ls: "\<forall>c \<in> set ls. is_alpha c \<and> upper_char c = c"
  shows "normalizeBoxNumber (Some (''SHELF '' @ ds @ ls)) = Some (''SHELF '' @ ds @ ls)"
  by (rule normalize_shelf[OF _ canonical_shelf_form[OF assms]]) simp



lemma fixed_box:
  assumes ne: "D \<noteq> []" and ds: "\<forall>c \<in> set D. is_digit c"
    and rt: "padStart3 (number_toString (parseInt10 D)) = D"
  shows "normalizeBoxNumber (Some (''BOX'' @ D)) = Some (''BOX'' @ D)"
proof -
  define r where "r = ''BOX'' @ D"
  have rne: "r \<noteq> []" and hd: "hd r = CHR ''B''" by (simp_all add: r_def)
  have up: "toUpperCase r = r"
    unfolding r_def toUpperCase_append using ds by (simp add: toUpperCase_fixed digit_upper_id)
  have "last r = last D" using ne by (simp add: r_def)
  moreover have "last D \<in> set D" using ne by (rule last_in_set)
  ultimately have "\<not> is_space (last r)" using ds by (auto simp: digit_not_space)
  then have tr: "trim r = r"
    using rne by (intro trim_fixed) (simp_all add: hd not_space_literals)
  have nf: "\<forall>ds' ls'. \<not> shelf_form r ds' ls'"
  proof (intro allI notI)
    fix ds' ls' assume "shelf_form r ds' ls'"
    then obtain p ws where eq: "r = p @ ws @ ds' @ ls'"
      and p: "toUpperCase p = ''SHELF'' \<or> toUpperCase p = ''S''"
      by (auto simp: shelf_form_def)
    from p obtain c p' where pc: "p = c # p'" and c: "upper_char c = CHR ''S''"
      by (cases p) (auto simp: toUpperCase_def)
    from eq pc hd have "c = CHR ''B''" by simp
    then show False using c by (simp add: upper_char_def is_lower_def)
  qed
  have "first_digits (''BOX'' @ D @ []) = Some D"
    using ne ds by (intro first_digits_SomeI) (simp_all add: is_digit_def)
  then have fd: "first_digits r = Some D" by (simp add: r_def)
  have "normalizeBoxNumber (Some r) = Some (''BOX'' @ padStart3 (number_toString (parseInt10 D)))"
    using rne by (intro normalize_box) (simp_all add: up tr nf fd)
  then show ?thesis by (simp add: rt r_def)
qed

lemma shelf_form_props:
  assumes "shelf_form u ds ls"
  shows "ds \<noteq> []" "\<forall>c \<in> set ds. is_digit c" "\<forall>c \<in> set ls. is_alpha c" "set ls \<subseteq> set u"
  using assms by (auto simp: shelf_form_def list_all_iff)

lemma normalize_idempotent_plain:
  assumes nb: "\<exists>c \<in> set s. \<not> is_space c" and plain: "plain_box_number s"
  shows "normalizeBoxNumber (normalizeBoxNumber (Some s)) = normalizeBoxNumber (Some s)"
proof -
  let ?u = "trim (toUpperCase s)"
  have s: "s \<noteq> []" using nb by auto
  have une: "?u \<noteq> []" using nb by (auto simp: trim_Nil_iff toUpperCase_def)
  have uu: "toUpperCase ?u = ?u" by (simp add: trim_map_upper)
  have tu: "trim (toUpperCase ?u) = ?u" by (simp add: uu)
  have ufix: "\<forall>c \<in> set ?u. upper_char c = c"
  proof
    fix c assume "c \<in> set ?u"
    then have "c \<in> set (toUpperCase (trim s))" by (simp add: trim_map_upper)
    then show "upper_char c = c" by (auto simp: toUpperCase_def)
  qed
  show ?thesis
  proof (cases "\<exists>ds ls. shelf_form ?u ds ls")
    case True
    then obtain ds ls where f: "shelf_form ?u ds ls" by blast
    have r: "normalizeBoxNumber (Some s) = Some (''SHELF '' @ ds @ ls)"
      using s f by (rule normalize_shelf)
    have "normalizeBoxNumber (Some (''SHELF '' @ ds @ ls)) = Some (''SHELF '' @ ds @ ls)"
      using shelf_form_props[OF f] ufix by (intro fixed_shelf) auto
    then show ?thesis by (simp add: r)
  next
    case False
    then have nf: "\<forall>ds ls. \<not> shelf_form ?u ds ls" by blast
    then have nsl: "normalizeShelfLocation (Some s) = None"
      using s by (simp add: normalizeShelf_None_iff)
    show ?thesis
    proof (cases "first_digits ?u")
      case None
      have r: "normalizeBoxNumber (Some s) = Some ?u"
        using s nf None by (rule normalize_fallback)
      have "normalizeBoxNumber (Some ?u) = Some (trim (toUpperCase ?u))"
        using une nf None by (intro normalize_fallback) (simp_all add: tu)
      then show ?thesis by (simp add: r tu)
    next
      case (Some ds)
      let ?x = "parseInt10 ds"
      let ?D = "padStart3 (number_toString ?x)"
      have r: "normalizeBoxNumber (Some s) = Some (''BOX'' @ ?D)"
        using s nf Some by (rule normalize_box)
      have pl: "list_all is_digit (number_toString (to_number (digits_value ds)))"
        using plain nsl Some by (simp add: plain_box_number_def parseInt10_def)
      have Dd: "\<forall>c \<in> set ?D. is_digit c"
        using pl by (simp add: padStart3_props(2) list_all_iff parseInt10_def)
      have Dne: "?D \<noteq> []"
      proof
        assume "?D = []"
        then have "length ?D = 0" by simp
        then show False by (auto simp: padStart3_def)
      qed
      have "parseInt10 ?D = ?x"
        using roundtrip[OF pl] by (simp add: parseInt10_def padStart3_props(1))
      then have "normalizeBoxNumber (Some (''BOX'' @ ?D)) = Some (''BOX'' @ ?D)"
        using Dne Dd by (intro fixed_box) simp_all
      then show ?thesis by (simp add: r)
    qed
  qed
qed



lemma plain_small:
  assumes "first_digits (trim (toUpperCase s)) = Some ds" "digits_value ds < 2 ^ 53"
  shows "plain_box_number s"
proof -
  have "number_toString (parseInt10 ds) = decimal (digits_value ds)"
    using assms(2) by (simp add: parseInt10_def to_number_small number_toString_small)
  then have "list_all is_digit (number_toString (parseInt10 ds))"
    by (simp add: list_all_iff decimal_digits)
  then show ?thesis
    using assms(1) by (simp add: plain_box_number_def split: option.splits)
qed

lemma normalizer_branches:
  "normalizeBoxNumber None = None \<and> normalizeBoxNumber (Some []) = None \<and>
   (s \<noteq> [] \<and> shelf_form (trim (toUpperCase s)) ds ls \<longrightarrow>
      normalizeBoxNumber (Some s) = Some (''SHELF '' @ ds @ ls)) \<and>
   (s \<noteq> [] \<and> (\<forall>ds' ls'. \<not> shelf_form (trim (toUpperCase s)) ds' ls') \<and>
    digit_run (trim (toUpperCase s)) ds \<longrightarrow>
      normalizeBoxNumber (Some s) = Some (''BOX'' @ padStart3 (number_toString (parseInt10 ds))) \<and>
      (digits_value ds < 2 ^ 53 \<longrightarrow>
         normalizeBoxNumber (Some s) = Some (''BOX'' @ padStart3 (decimal (digits_value ds))))) \<and>
   (s \<noteq> [] \<and> (\<forall>ds' ls'. \<not> shelf_form (trim (toUpperCase s)) ds' ls') \<and>
    list_all (\<lambda>c. \<not> is_digit c) (trim (toUpperCase s)) \<longrightarrow>
      normalizeBoxNumber (Some s) = Some (trim (toUpperCase s))) \<and>
   normalizeBoxNumber (Some ''shelf 2c'') = Some ''SHELF 2C'' \<and>
   normalizeBoxNumber (Some ''SHELF2C'') = Some ''SHELF 2C'' \<and>
   normalizeBoxNumber (Some ''s 2c'') = Some ''SHELF 2C'' \<and>
   normalizeBoxNumber (Some ''S2C'') = Some ''SHELF 2C'' \<and>
   normalizeBoxNumber (Some ''box42'') = Some ''BOX042'' \<and>
   normalizeBoxNumber (Some ''B042'') = Some ''BOX042'' \<and>
   normalizeBoxNumber (Some ''42'') = Some ''BOX042'' \<and>
   normalizeBoxNumber (Some ''BOX 042'') = Some ''BOX042''"
proof -
  have box: "normalizeBoxNumber (Some s) = Some (''BOX'' @ padStart3 (number_toString (parseInt10 ds)))"
    if "s \<noteq> []" "\<forall>ds' ls'. \<not> shelf_form (trim (toUpperCase s)) ds' ls'"
      "digit_run (trim (toUpperCase s)) ds"
    using that by (intro normalize_box) (simp_all add: digit_run_first_digits)
  have small: "number_toString (parseInt10 ds) = decimal (digits_value ds)"
    if "digits_value ds < 2 ^ 53"
    using that by (simp add: parseInt10_def to_number_small number_toString_small)
  have fb: "normalizeBoxNumber (Some s) = Some (trim (toUpperCase s))"
    if "s \<noteq> []" "\<forall>ds' ls'. \<not> shelf_form (trim (toUpperCase s)) ds' ls'"
      "list_all (\<lambda>c. \<not> is_digit c) (trim (toUpperCase s))"
    using that by (intro normalize_fallback) (simp_all add: first_digits_None_iff list_all_iff)
  have empty: "normalizeBoxNumber None = None" "normalizeBoxNumber (Some []) = None"
    by (simp_all add: normalizeBoxNumber_def)
  show ?thesis
    using normalize_shelf[of s ds ls] box small fb empty
      normalize_example_1 normalize_example_2 normalize_example_3 normalize_example_4
      normalize_example_5 normalize_example_6 normalize_example_7 normalize_example_8
    by (metis (no_types, lifting))
qed



text \<open>
  C2, as amended. \<open>null\<close> and the empty text give no result. Otherwise an ASCII text is
  upper-cased and trimmed; a shelf text gives \<open>SHELF\<close>, a blank, the digits and the
  letters; any other text with a digit gives \<open>BOX\<close> and the number of its first digit
  run as JavaScript prints it, padded to three characters (its decimal digits when the
  number is below \<open>2 ^ 53\<close>); a text with neither gives the upper-cased, trimmed text.
  The eight examples of the specification hold.
\<close>

theorem normalizeBoxNumber_cases:
  "normalizeBoxNumber None = None \<and> normalizeBoxNumber (Some []) = None \<and>
   (ascii s \<and> s \<noteq> [] \<and> shelf_form (trim (toUpperCase s)) ds ls \<longrightarrow>
      normalizeBoxNumber (Some s) = Some (''SHELF '' @ ds @ ls)) \<and>
   (ascii s \<and> s \<noteq> [] \<and> (\<forall>ds' ls'. \<not> shelf_form (trim (toUpperCase s)) ds' ls') \<and>
    digit_run (trim (toUpperCase s)) ds \<longrightarrow>
      normalizeBoxNumber (Some s) = Some (''BOX'' @ padStart3 (number_toString (parseInt10 ds))) \<and>
      (digits_value ds < 2 ^ 53 \<longrightarrow>
         normalizeBoxNumber (Some s) = Some (''BOX'' @ padStart3 (decimal (digits_value ds))))) \<and>
   (ascii s \<and> s \<noteq> [] \<and> (\<forall>ds' ls'. \<not> shelf_form (trim (toUpperCase s)) ds' ls') \<and>
    list_all (\<lambda>c. \<not> is_digit c) (trim (toUpperCase s)) \<longrightarrow>
      normalizeBoxNumber (Some s) = Some (trim (toUpperCase s))) \<and>
   normalizeBoxNumber (Some ''shelf 2c'') = Some ''SHELF 2C'' \<and>
   normalizeBoxNumber (Some ''SHELF2C'') = Some ''SHELF 2C'' \<and>
   normalizeBoxNumber (Some ''s 2c'') = Some ''SHELF 2C'' \<and>
   normalizeBoxNumber (Some ''S2C'') = Some ''SHELF 2C'' \<and>
   normalizeBoxNumber (Some ''box42'') = Some ''BOX042'' \<and>
   normalizeBoxNumber (Some ''B042'') = Some ''BOX042'' \<and>
   normalizeBoxNumber (Some ''42'') = Some ''BOX042'' \<and>
   normalizeBoxNumber (Some ''BOX 042'') = Some ''BOX042''"
  using normalizer_branches[of s ds ls] by blast

theorem normalizeBoxNumber_cases_witness:
  "(ascii ''s 2c'' \<and> ''s 2c'' \<noteq> [] \<and> shelf_form (trim (toUpperCase ''s 2c'')) ''2'' ''C'' \<and>
      normalizeBoxNumber (Some ''s 2c'') = Some (''SHELF '' @ ''2'' @ ''C'')) \<and>
   (ascii ''box42'' \<and> ''box42'' \<noteq> [] \<and> (\<forall>ds' ls'. \<not> shelf_form (trim (toUpperCase ''box42'')) ds' ls') \<and>
      digit_run (trim (toUpperCase ''box42'')) ''42'' \<and> digits_value ''42'' < 2 ^ 53 \<and>
      normalizeBoxNumber (Some ''box42'') = Some (''BOX'' @ padStart3 (decimal (digits_value ''42'')))) \<and>
   (ascii '' abc '' \<and> '' abc '' \<noteq> [] \<and> (\<forall>ds' ls'. \<not> shelf_form (trim (toUpperCase '' abc '')) ds' ls') \<and>
      list_all (\<lambda>c. \<not> is_digit c) (trim (toUpperCase '' abc '')) \<and>
      normalizeBoxNumber (Some '' abc '') = Some (trim (toUpperCase '' abc '')))"
proof -
  have "shelf_pattern ''S'' (trim (toUpperCase ''s 2c'')) = Some (''2'', ''C'')"
    by (simp add: shelf_pattern_def Let_def char_defs)
  then have a: "shelf_form (trim (toUpperCase ''s 2c'')) ''2'' ''C''"
    by (intro shelf_pattern_form) simp
  have "normalizeShelfLocation (Some ''box42'') = None"
    by (simp add: norm_defs char_defs)
  then have b1: "\<forall>ds' ls'. \<not> shelf_form (trim (toUpperCase ''box42'')) ds' ls'"
    by (simp add: normalizeShelf_None_iff)
  have "first_digits (trim (toUpperCase ''box42'')) = Some ''42''"
    by (simp add: first_digits_def Let_def char_defs)
  then have b2: "digit_run (trim (toUpperCase ''box42'')) ''42''"
    by (simp add: digit_run_first_digits)
  have b3: "digits_value ''42'' < 2 ^ 53"
    by (simp add: digits_value_def digit_val_def)
  have "normalizeShelfLocation (Some '' abc '') = None"
    by (simp add: norm_defs char_defs)
  then have c1: "\<forall>ds' ls'. \<not> shelf_form (trim (toUpperCase '' abc '')) ds' ls'"
    by (simp add: normalizeShelf_None_iff)
  have c2: "list_all (\<lambda>c. \<not> is_digit c) (trim (toUpperCase '' abc ''))"
    by (simp add: char_defs)
  have n: "''s 2c'' \<noteq> []" "''box42'' \<noteq> []" "'' abc '' \<noteq> []" by simp_all
  have as: "ascii ''s 2c''" "ascii ''box42''" "ascii '' abc ''" by (simp_all add: ascii_def)
  show ?thesis
    using normalizeBoxNumber_cases [of "''s 2c''" "''2''" "''C''"]
      normalizeBoxNumber_cases [of "''box42''" "''42''" "''C''"]
      normalizeBoxNumber_cases [of "'' abc ''" "''42''" "''C''"]
      a b1 b2 b3 c1 c2 n as
    by blast
qed

text \<open>
  The claim as worded ("returns the upper-cased input verbatim") fails on a text with
  blanks around it: \<open>" abc "\<close> matches neither pattern and gives \<open>"ABC"\<close>, while the
  upper-cased input is \<open>" ABC "\<close>.
\<close>

theorem normalizeBoxNumber_verbatim_counterexample:
  "ascii '' abc '' \<and>
   normalizeShelfLocation (Some '' abc '') = None \<and>
   first_digits (toUpperCase '' abc '') = None \<and>
   toUpperCase '' abc '' = '' ABC '' \<and>
   normalizeBoxNumber (Some '' abc '') = Some ''ABC'' \<and>
   normalizeBoxNumber (Some '' abc '') \<noteq> Some (toUpperCase '' abc '')"
proof -
  have "ascii '' abc ''" by (simp add: ascii_def)
  then show ?thesis by (simp add: norm_defs char_defs)
qed

text \<open>
  C10, as amended. For an ASCII text with a non-blank character whose box number, if it takes
  the box branch, is printed in plain digits, normalizing the result again gives the
  same result. Every number below \<open>2 ^ 53\<close> is printed in plain digits.
\<close>

theorem normalizeBoxNumber_idempotent:
  "(ascii s \<and> \<not> list_all is_space s \<and> plain_box_number s \<longrightarrow>
      normalizeBoxNumber (normalizeBoxNumber (Some s)) = normalizeBoxNumber (Some s)) \<and>
   (ascii s \<and> first_digits (trim (toUpperCase s)) = Some ds \<and> digits_value ds < 2 ^ 53 \<longrightarrow>
      plain_box_number s)"
  using normalize_idempotent_plain[of s] plain_small[of s ds]
  by (auto simp: list_all_iff)

theorem normalizeBoxNumber_idempotent_witness:
  "ascii ''box42'' \<and> \<not> list_all is_space ''box42'' \<and> plain_box_number ''box42'' \<and>
   first_digits (trim (toUpperCase ''box42'')) = Some ''42'' \<and> digits_value ''42'' < 2 ^ 53 \<and>
   normalizeBoxNumber (normalizeBoxNumber (Some ''box42'')) = normalizeBoxNumber (Some ''box42'')"
proof -
  have a: "\<not> list_all is_space ''box42''" by (simp add: is_space_iff)
  have b: "first_digits (trim (toUpperCase ''box42'')) = Some ''42''"
    by (simp add: first_digits_def Let_def char_defs)
  have c: "digits_value ''42'' < 2 ^ 53"
    by (simp add: digits_value_def digit_val_def)
  have d: "ascii ''box42''" by (simp add: ascii_def)
  show ?thesis
    using normalizeBoxNumber_idempotent [of "''box42''" "''42''"] a b c d by blast
qed

text \<open>
  The claim as worded (every text with a non-blank character) fails from \<open>10 ^ 21\<close> on,
  on ASCII text already,
  where JavaScript prints a number with an exponent: the 22-digit text below gives
  \<open>BOX1e+21\<close>, and that gives \<open>BOX001\<close>.
\<close>

theorem normalizeBoxNumber_idempotent_counterexample:
  "ascii ''1000000000000000000000'' \<and>
   \<not> list_all is_space ''1000000000000000000000'' \<and>
   normalizeBoxNumber (Some ''1000000000000000000000'') = Some ''BOX1e+21'' \<and>
   normalizeBoxNumber (normalizeBoxNumber (Some ''1000000000000000000000'')) = Some ''BOX001'' \<and>
   normalizeBoxNumber (normalizeBoxNumber (Some ''1000000000000000000000''))
     \<noteq> normalizeBoxNumber (Some ''1000000000000000000000'')"
proof -
  have "ascii ''1000000000000000000000''" by (simp add: ascii_def)
  then show ?thesis by (simp add: normalize_huge normalize_huge_again is_space_iff)
qed
section \<open>Properties of the quantity parser\<close>

lemma not_digit_markers:
  "\<not> is_digit (CHR ''x'')" "\<not> is_digit (CHR ''X'')" "\<not> is_digit (CHR ''('')" "\<not> is_digit (CHR '')'')"
  "\<not> is_space (CHR ''x'')" "\<not> is_space (CHR ''X'')" "\<not> is_space (CHR ''('')" "\<not> is_space (CHR '')'')"
  by (simp_all add: is_digit_def is_space_iff)

lemma hd_rev_digits: "ds \<noteq> [] \<Longrightarrow> \<forall>c \<in> set ds. is_digit c \<Longrightarrow> is_digit (hd (rev ds))"
  by (simp add: hd_rev)

lemma xPattern_SomeI:
  assumes "x_form t pre ds"
  shows "xPattern t = Some (pre, ds)"
proof -
  from assms obtain ws x ws2 where t: "t = pre @ ws @ [x] @ ds @ ws2"
    and ws: "ws \<noteq> []" "\<forall>c \<in> set ws. is_space c" and x: "x = CHR ''x'' \<or> x = CHR ''X''"
    and ds: "ds \<noteq> []" "\<forall>c \<in> set ds. is_digit c" and ws2: "\<forall>c \<in> set ws2. is_space c"
    and pre: "pre = [] \<or> \<not> is_space (last pre)"
    by (auto simp: x_form_def list_all_iff)
  have rt: "rev t = rev ws2 @ rev ds @ x # rev ws @ rev pre" by (simp add: t)
  have hd: "is_digit (hd (rev ds))" using ds by (simp add: hd_rev)
  have a: "dropWhile is_space (rev t) = rev ds @ x # rev ws @ rev pre"
    unfolding rt using ws2 ds hd by (intro span_app) (auto simp: digit_not_space)
  have xd: "\<not> is_digit x" using x by (auto simp: not_digit_markers)
  have b: "takeWhile is_digit (rev ds @ x # rev ws @ rev pre) = rev ds"
    "dropWhile is_digit (rev ds @ x # rev ws @ rev pre) = x # rev ws @ rev pre"
    using ds xd by (intro span_app; simp)+
  have pre': "rev pre = [] \<or> \<not> is_space (hd (rev pre))" using pre by (auto simp: hd_rev)
  have c: "takeWhile is_space (rev ws @ rev pre) = rev ws" "dropWhile is_space (rev ws @ rev pre) = rev pre"
    using ws pre' by (intro span_app; simp)+
  show ?thesis
    using ds ws x by (auto simp: xPattern_def a b c Let_def)
qed

lemma xPattern_SomeD:
  assumes "xPattern t = Some (pre, ds)"
  shows "x_form t pre ds"
proof -
  let ?r0 = "dropWhile is_space (rev t)"
  let ?d = "takeWhile is_digit ?r0"
  let ?r1 = "dropWhile is_digit ?r0"
  from assms have dne: "?d \<noteq> []" by (auto simp: xPattern_def Let_def split: if_splits)
  from assms obtain c r2 where r1: "?r1 = c # r2" and c: "c = CHR ''x'' \<or> c = CHR ''X''"
    and w: "takeWhile is_space r2 \<noteq> []" and pre: "pre = rev (dropWhile is_space r2)" and ds: "ds = rev ?d"
    by (auto simp: xPattern_def Let_def split: if_splits list.splits)
  have split: "rev r2 = rev (dropWhile is_space r2) @ rev (takeWhile is_space r2)"
    by (metis rev_append takeWhile_dropWhile_id)
  have "rev t = takeWhile is_space (rev t) @ ?r0" by simp
  also have "?r0 = ?d @ ?r1" by simp
  finally have "rev t = takeWhile is_space (rev t) @ ?d @ c # r2" by (simp only: r1)
  then have "rev (rev t) = rev (takeWhile is_space (rev t) @ ?d @ c # r2)"
    by (rule arg_cong)
  then have "t = rev r2 @ [c] @ rev ?d @ rev (takeWhile is_space (rev t))"
    by simp
  then have t: "t = pre @ rev (takeWhile is_space r2) @ [c] @ ds @ rev (takeWhile is_space (rev t))"
    by (simp add: split pre ds)
  have p: "pre = [] \<or> \<not> is_space (last pre)"
    using hd_dropWhile[of is_space r2] by (auto simp: pre last_rev)
  have "rev (takeWhile is_space r2) \<noteq> []" using w by simp
  moreover have "list_all is_space (rev (takeWhile is_space r2))"
    by (auto simp: list_all_iff dest: set_takeWhileD)
  moreover have "list_all is_space (rev (takeWhile is_space (rev t)))"
    by (auto simp: list_all_iff dest: set_takeWhileD)
  moreover have "ds \<noteq> []" using dne by (simp add: ds)
  moreover have "list_all is_digit ds" by (auto simp: ds list_all_iff dest: set_takeWhileD)
  ultimately show ?thesis
    unfolding x_form_def using t c p by blast
qed

lemma parenPattern_SomeI:
  assumes "paren_form t pre ds"
  shows "parenPattern t = Some (pre, ds)"
proof -
  from assms obtain ws ws2 where t: "t = pre @ ws @ ''('' @ ds @ '')'' @ ws2"
    and ws: "\<forall>c \<in> set ws. is_space c"
    and ds: "ds \<noteq> []" "\<forall>c \<in> set ds. is_digit c" and ws2: "\<forall>c \<in> set ws2. is_space c"
    and pre: "pre = [] \<or> \<not> is_space (last pre)"
    by (auto simp: paren_form_def list_all_iff)
  have rt: "rev t = rev ws2 @ CHR '')'' # rev ds @ CHR ''('' # rev ws @ rev pre" by (simp add: t)
  have a: "dropWhile is_space (rev t) = CHR '')'' # rev ds @ CHR ''('' # rev ws @ rev pre"
    unfolding rt using ws2 by (intro span_app) (auto simp: not_digit_markers)
  have b: "takeWhile is_digit (rev ds @ CHR ''('' # rev ws @ rev pre) = rev ds"
    "dropWhile is_digit (rev ds @ CHR ''('' # rev ws @ rev pre) = CHR ''('' # rev ws @ rev pre"
    using ds by (intro span_app; simp add: not_digit_markers)+
  have pre': "rev pre = [] \<or> \<not> is_space (hd (rev pre))" using pre by (auto simp: hd_rev)
  have c: "dropWhile is_space (rev ws @ rev pre) = rev pre"
    using ws pre' by (intro span_app; simp)
  show ?thesis
    using ds by (simp add: parenPattern_def a b c Let_def)
qed

lemma parenPattern_SomeD:
  assumes "parenPattern t = Some (pre, ds)"
  shows "paren_form t pre ds"
proof -
  let ?r0 = "dropWhile is_space (rev t)"
  from assms obtain r1 where r0: "?r0 = CHR '')'' # r1"
    by (auto simp: parenPattern_def Let_def split: if_splits list.splits)
  let ?d = "takeWhile is_digit r1"
  let ?r2 = "dropWhile is_digit r1"
  from assms r0 have dne: "?d \<noteq> []"
    by (auto simp: parenPattern_def Let_def split: if_splits list.splits)
  from assms r0 obtain r3 where r2: "?r2 = CHR ''('' # r3"
    and pre: "pre = rev (dropWhile is_space r3)" and ds: "ds = rev ?d"
    by (auto simp: parenPattern_def Let_def split: if_splits list.splits)
  have split: "rev r3 = rev (dropWhile is_space r3) @ rev (takeWhile is_space r3)"
    by (metis rev_append takeWhile_dropWhile_id)
  have "rev t = takeWhile is_space (rev t) @ ?r0" by simp
  also have "?r0 = CHR '')'' # ?d @ ?r2" by (simp add: r0)
  finally have "rev t = takeWhile is_space (rev t) @ CHR '')'' # ?d @ CHR ''('' # r3" by (simp only: r2)
  then have "rev (rev t) = rev (takeWhile is_space (rev t) @ CHR '')'' # ?d @ CHR ''('' # r3)"
    by (rule arg_cong)
  then have "t = rev r3 @ ''('' @ rev ?d @ '')'' @ rev (takeWhile is_space (rev t))"
    by simp
  then have t: "t = pre @ rev (takeWhile is_space r3) @ ''('' @ ds @ '')'' @ rev (takeWhile is_space (rev t))"
    by (simp add: split pre ds)
  have p: "pre = [] \<or> \<not> is_space (last pre)"
    using hd_dropWhile[of is_space r3] by (auto simp: pre last_rev)
  have "list_all is_space (rev (takeWhile is_space r3))"
    by (auto simp: list_all_iff dest: set_takeWhileD)
  moreover have "list_all is_space (rev (takeWhile is_space (rev t)))"
    by (auto simp: list_all_iff dest: set_takeWhileD)
  moreover have "ds \<noteq> []" using dne by (simp add: ds)
  moreover have "list_all is_digit ds" by (auto simp: ds list_all_iff dest: set_takeWhileD)
  ultimately show ?thesis
    unfolding paren_form_def using t p by blast
qed

lemma or1_idem [simp]: "or1 (or1 n) = or1 n"
  by (simp add: or1_def)

lemma or1_small: "v < 2 ^ 53 \<Longrightarrow> or1 (to_number v) = Fin (max 1 v)"
  by (auto simp: or1_def to_number_small max_def)

lemma xPattern_None_iff: "(xPattern t = None) = (\<forall>pre ds. \<not> x_form t pre ds)"
proof
  assume n: "xPattern t = None"
  show "\<forall>pre ds. \<not> x_form t pre ds"
  proof (intro allI notI)
    fix pre ds assume "x_form t pre ds"
    then have "xPattern t = Some (pre, ds)" by (rule xPattern_SomeI)
    then show False using n by simp
  qed
next
  assume n: "\<forall>pre ds. \<not> x_form t pre ds"
  show "xPattern t = None"
  proof (cases "xPattern t")
    case None
    then show ?thesis .
  next
    case (Some a)
    then have "x_form t (fst a) (snd a)" by (intro xPattern_SomeD) simp
    then show ?thesis using n by blast
  qed
qed

lemma parenPattern_None_iff: "(parenPattern t = None) = (\<forall>pre ds. \<not> paren_form t pre ds)"
proof
  assume n: "parenPattern t = None"
  show "\<forall>pre ds. \<not> paren_form t pre ds"
  proof (intro allI notI)
    fix pre ds assume "paren_form t pre ds"
    then have "parenPattern t = Some (pre, ds)" by (rule parenPattern_SomeI)
    then show False using n by simp
  qed
next
  assume n: "\<forall>pre ds. \<not> paren_form t pre ds"
  show "parenPattern t = None"
  proof (cases "parenPattern t")
    case None
    then show ?thesis .
  next
    case (Some a)
    then have "paren_form t (fst a) (snd a)" by (intro parenPattern_SomeD) simp
    then show ?thesis using n by blast
  qed
qed

lemma x_form_pre:
  assumes "x_form (trim s) pre ds"
  shows "pre \<noteq> []" "trim pre = pre"
proof -
  from assms obtain ws x ws2 where t: "trim s = pre @ ws @ [x] @ ds @ ws2"
    and ws: "ws \<noteq> []" "\<forall>c \<in> set ws. is_space c"
    and pre: "pre = [] \<or> \<not> is_space (last pre)"
    by (auto simp: x_form_def list_all_iff)
  have ne: "trim s \<noteq> []" using t by simp
  have h: "\<not> is_space (hd (trim s))" using ne by (rule trim_ends)
  show p: "pre \<noteq> []"
  proof
    assume "pre = []"
    then have "hd (trim s) = hd ws" using t ws by simp
    moreover have "is_space (hd ws)" using ws by (cases ws) auto
    ultimately show False using h by simp
  qed
  have "hd (trim s) = hd pre" using t p by simp
  then show "trim pre = pre" using p pre h by (intro trim_fixed) simp_all
qed

lemma parseQuantity_x:
  assumes "itemName \<noteq> []" "x_form (trim itemName) pre ds"
  shows "parseQuantity itemName = (pre, or1 (parseInt10 ds))"
  using assms(1) xPattern_SomeI[OF assms(2)] x_form_pre[OF assms(2)]
  by (simp add: parseQuantity_def Let_def)

lemma parseQuantity_paren:
  assumes "itemName \<noteq> []" "\<forall>pre' ds'. \<not> x_form (trim itemName) pre' ds'"
    "paren_form (trim itemName) pre ds"
  shows "parseQuantity itemName = (if trim pre = [] then itemName else trim pre, or1 (parseInt10 ds))"
  using assms(1) parenPattern_SomeI[OF assms(3)] assms(2)[folded xPattern_None_iff]
  by (simp add: parseQuantity_def Let_def)

lemma parseQuantity_plain:
  assumes "itemName \<noteq> []" "\<forall>pre' ds'. \<not> x_form (trim itemName) pre' ds'"
    "\<forall>pre' ds'. \<not> paren_form (trim itemName) pre' ds'"
  shows "parseQuantity itemName = (if trim itemName = [] then itemName else trim itemName, Fin 1)"
  using assms(1) assms(3)[folded parenPattern_None_iff] assms(2)[folded xPattern_None_iff]
  by (simp add: parseQuantity_def Let_def or1_def)

lemmas quantity_defs = parseQuantity_def xPattern_def parenPattern_def or1_def Let_def

lemma quantity_example_1: "parseQuantity ''batteries x3'' = (''batteries'', Fin 3)"
  by (simp add: quantity_defs char_defs parseInt10_def digits_value_def digit_val_def to_number_def)
lemma quantity_example_2: "parseQuantity ''widget (4)'' = (''widget'', Fin 4)"
  by (simp add: quantity_defs char_defs parseInt10_def digits_value_def digit_val_def to_number_def)
lemma quantity_example_3: "parseQuantity ''pen'' = (''pen'', Fin 1)"
  by (simp add: quantity_defs char_defs parseInt10_def digits_value_def digit_val_def to_number_def)
lemma quantity_example_4: "parseQuantity ''(3)'' = (''(3)'', Fin 3)"
  by (simp add: quantity_defs char_defs parseInt10_def digits_value_def digit_val_def to_number_def)
lemma quantity_example_5: "parseQuantity ''pen x2'' = (''pen'', Fin 2)"
  by (simp add: quantity_defs char_defs parseInt10_def digits_value_def digit_val_def to_number_def)
lemma quantity_example_6: "parseQuantity ''pen x0'' = (''pen'', Fin 1)"
  by (simp add: quantity_defs char_defs parseInt10_def digits_value_def digit_val_def to_number_def)

lemma parser_branches:
  "parseQuantity [] = ([], Fin 1) \<and>
   (itemName \<noteq> [] \<and> x_form (trim itemName) pre ds \<longrightarrow>
      parseQuantity itemName = (trim pre, or1 (parseInt10 ds)) \<and> trim pre \<noteq> []) \<and>
   (itemName \<noteq> [] \<and> (\<forall>pre' ds'. \<not> x_form (trim itemName) pre' ds') \<and>
    paren_form (trim itemName) pre ds \<longrightarrow>
      parseQuantity itemName =
        (if trim pre = [] then itemName else trim pre, or1 (parseInt10 ds))) \<and>
   (itemName \<noteq> [] \<and> (\<forall>pre' ds'. \<not> x_form (trim itemName) pre' ds') \<and>
    (\<forall>pre' ds'. \<not> paren_form (trim itemName) pre' ds') \<longrightarrow>
      parseQuantity itemName = (if trim itemName = [] then itemName else trim itemName, Fin 1)) \<and>
   (digits_value ds < 2 ^ 53 \<longrightarrow> or1 (parseInt10 ds) = Fin (max 1 (digits_value ds))) \<and>
   parseQuantity ''batteries x3'' = (''batteries'', Fin 3) \<and>
   parseQuantity ''widget (4)'' = (''widget'', Fin 4) \<and>
   parseQuantity ''pen'' = (''pen'', Fin 1)"
proof -
  have e: "parseQuantity [] = ([], Fin 1)" by (simp add: parseQuantity_def)
  have x: "parseQuantity itemName = (trim pre, or1 (parseInt10 ds)) \<and> trim pre \<noteq> []"
    if "itemName \<noteq> []" "x_form (trim itemName) pre ds"
    using parseQuantity_x[OF that] x_form_pre[OF that(2)] by simp
  have s: "or1 (parseInt10 ds) = Fin (max 1 (digits_value ds))" if "digits_value ds < 2 ^ 53"
    using that by (simp add: parseInt10_def or1_small)
  show ?thesis
    using e x s parseQuantity_paren[of itemName pre ds] parseQuantity_plain[of itemName]
      quantity_example_1 quantity_example_2 quantity_example_3
    by (metis (no_types, lifting))
qed


text \<open>
  C3, as amended, for ASCII text. The empty text gives the empty name and quantity 1. On a text that
  ends in \<open>x\<close> or \<open>X\<close> and digits after a blank, the name is the text before the match
  and the quantity the parsed number, 1 in place of 0; the parenthesis pattern is tried
  next, and there the name is the text before the match, trimmed, unless that is empty:
  then it is the input as given. With no match the quantity is 1 and the name the trimmed
  input, or the input as given when trimming leaves nothing.
\<close>

theorem parseQuantity_cases:
  "parseQuantity [] = ([], Fin 1) \<and>
   (ascii itemName \<and> itemName \<noteq> [] \<and> x_form (trim itemName) pre ds \<longrightarrow>
      parseQuantity itemName = (trim pre, or1 (parseInt10 ds)) \<and> trim pre \<noteq> []) \<and>
   (ascii itemName \<and> itemName \<noteq> [] \<and> (\<forall>pre' ds'. \<not> x_form (trim itemName) pre' ds') \<and>
    paren_form (trim itemName) pre ds \<longrightarrow>
      parseQuantity itemName =
        (if trim pre = [] then itemName else trim pre, or1 (parseInt10 ds))) \<and>
   (ascii itemName \<and> itemName \<noteq> [] \<and> (\<forall>pre' ds'. \<not> x_form (trim itemName) pre' ds') \<and>
    (\<forall>pre' ds'. \<not> paren_form (trim itemName) pre' ds') \<longrightarrow>
      parseQuantity itemName = (if trim itemName = [] then itemName else trim itemName, Fin 1)) \<and>
   (digits_value ds < 2 ^ 53 \<longrightarrow> or1 (parseInt10 ds) = Fin (max 1 (digits_value ds))) \<and>
   parseQuantity ''batteries x3'' = (''batteries'', Fin 3) \<and>
   parseQuantity ''widget (4)'' = (''widget'', Fin 4) \<and>
   parseQuantity ''pen'' = (''pen'', Fin 1)"
  using parser_branches[of itemName pre ds] by blast

theorem parseQuantity_cases_witness:
  "(ascii ''batteries x3'' \<and> ''batteries x3'' \<noteq> [] \<and> x_form (trim ''batteries x3'') ''batteries'' ''3'' \<and>
      parseQuantity ''batteries x3'' = (trim ''batteries'', or1 (parseInt10 ''3''))) \<and>
   (ascii ''widget (4)'' \<and> ''widget (4)'' \<noteq> [] \<and> (\<forall>pre' ds'. \<not> x_form (trim ''widget (4)'') pre' ds') \<and>
      paren_form (trim ''widget (4)'') ''widget'' ''4'' \<and>
      parseQuantity ''widget (4)'' =
        (if trim ''widget'' = [] then ''widget (4)'' else trim ''widget'', or1 (parseInt10 ''4''))) \<and>
   (ascii ''pen'' \<and> ''pen'' \<noteq> [] \<and> (\<forall>pre' ds'. \<not> x_form (trim ''pen'') pre' ds') \<and>
      (\<forall>pre' ds'. \<not> paren_form (trim ''pen'') pre' ds') \<and>
      parseQuantity ''pen'' = (if trim ''pen'' = [] then ''pen'' else trim ''pen'', Fin 1)) \<and>
   (digits_value ''3'' < 2 ^ 53 \<and> or1 (parseInt10 ''3'') = Fin (max 1 (digits_value ''3'')))"
proof -
  have "xPattern (trim ''batteries x3'') = Some (''batteries'', ''3'')"
    by (simp add: xPattern_def Let_def char_defs)
  then have a: "x_form (trim ''batteries x3'') ''batteries'' ''3''" by (rule xPattern_SomeD)
  have "xPattern (trim ''widget (4)'') = None"
    by (simp add: xPattern_def Let_def char_defs)
  then have b1: "\<forall>pre' ds'. \<not> x_form (trim ''widget (4)'') pre' ds'"
    by (simp add: xPattern_None_iff)
  have "parenPattern (trim ''widget (4)'') = Some (''widget'', ''4'')"
    by (simp add: parenPattern_def Let_def char_defs)
  then have b2: "paren_form (trim ''widget (4)'') ''widget'' ''4''" by (rule parenPattern_SomeD)
  have "xPattern (trim ''pen'') = None"
    by (simp add: xPattern_def Let_def char_defs)
  then have c1: "\<forall>pre' ds'. \<not> x_form (trim ''pen'') pre' ds'"
    by (simp add: xPattern_None_iff)
  have "parenPattern (trim ''pen'') = None"
    by (simp add: parenPattern_def Let_def char_defs)
  then have c2: "\<forall>pre' ds'. \<not> paren_form (trim ''pen'') pre' ds'"
    by (simp add: parenPattern_None_iff)
  have d: "digits_value ''3'' < 2 ^ 53"
    by (simp add: digits_value_def digit_val_def)
  have n: "''batteries x3'' \<noteq> []" "''widget (4)'' \<noteq> []" "''pen'' \<noteq> []" by simp_all
  have as: "ascii ''batteries x3''" "ascii ''widget (4)''" "ascii ''pen''" by (simp_all add: ascii_def)
  show ?thesis
    using parseQuantity_cases [of "''batteries x3''" "''batteries''" "''3''"]
      parseQuantity_cases [of "''widget (4)''" "''widget''" "''4''"]
      parseQuantity_cases [of "''pen''" "''pen''" "''3''"]
      a b1 b2 c1 c2 d n as
    by blast
qed

text \<open>
  The claim as worded (the name is the text with the matched suffix stripped and
  trimmed) fails when nothing is left before the match: on \<open>"(3)"\<close> the parenthesis
  pattern matches from the start, the stripped text is empty, and the name returned is
  the input itself, with quantity 3.
\<close>

theorem parseQuantity_stripped_counterexample:
  "ascii ''(3)'' \<and>
   xPattern (trim ''(3)'') = None \<and>
   parenPattern (trim ''(3)'') = Some ([], ''3'') \<and>
   trim [] = [] \<and>
   parseQuantity ''(3)'' = (''(3)'', Fin 3) \<and>
   fst (parseQuantity ''(3)'') \<noteq> trim []"
proof -
  have "ascii ''(3)''" by (simp add: ascii_def)
  then show ?thesis
    by (simp add: quantity_defs char_defs parseInt10_def digits_value_def digit_val_def to_number_def)
qed


section \<open>Properties of the session store\<close>

lemma map_of_obj_set: "map_of (obj_set bs k v) k' = (if k' = k then Some v else map_of bs k')"
proof (cases "k \<in> fst ` set bs")
  case True
  have "map_of (map (\<lambda>(k', b). if k' = k then (k', v) else (k', b)) bs) k' =
        (if k' = k then (if k \<in> fst ` set bs then Some v else None) else map_of bs k')"
    by (induction bs) (auto split: if_splits)
  then show ?thesis using True by (simp add: obj_set_def)
next
  case False
  then have "map_of bs k = None" by (simp add: map_of_eq_None_iff)
  then show ?thesis using False by (auto simp: obj_set_def map_add_def split: option.splits)
qed


lemma findIndex_None_iff: "(findIndex P xs = None) = (\<forall>x \<in> set xs. \<not> P x)"
  by (induction xs) auto

lemma findIndex_first:
  "\<forall>x \<in> set xs. \<not> P x \<Longrightarrow> P i \<Longrightarrow> findIndex P (xs @ i # ys) = Some (length xs)"
  by (induction xs) auto

lemma findIndex_SomeD:
  "findIndex P xs = Some n \<Longrightarrow> n < length xs \<and> P (xs ! n) \<and> (\<forall>x \<in> set (take n xs). \<not> P x)"
proof (induction xs arbitrary: n)
  case Nil
  then show ?case by simp
next
  case (Cons a xs)
  show ?case
  proof (cases "P a")
    case True
    then show ?thesis using Cons.prems by simp
  next
    case False
    then obtain m where m: "findIndex P xs = Some m" "n = Suc m" using Cons.prems by auto
    from Cons.IH[OF m(1)] show ?thesis using False m(2) by simp
  qed
qed

lemma splice1_at: "splice1 (length xs) (xs @ i # ys) = xs @ ys"
  by (simp add: splice1_def)

lemma shape_stored:
  "ensureBoxDataShape (as_stored b) = (if truthy (completedAt b) then b else b\<lparr>completedAt := None\<rparr>)"
  by (simp add: ensureBoxDataShape_def as_stored_def)

lemma save_fields [simp]:
  "currentSession (saveStateToHistory st) = currentSession st"
  "exportedSession (saveStateToHistory st) = exportedSession st"
  "window_session (saveStateToHistory st) = window_session st"
  "currentBox (saveStateToHistory st) = currentBox st"
  "editingItemId (saveStateToHistory st) = editingItemId st"
  "MAX_HISTORY_SIZE (saveStateToHistory st) = MAX_HISTORY_SIZE st"
  "migrationDone (saveStateToHistory st) = migrationDone st"
  by (simp_all add: saveStateToHistory_def window_session_def Let_def split: option.splits)

lemma window_session_upd [simp]:
  "window_session (st\<lparr>currentBox := cb\<rparr>) = window_session st"
  "window_session (st\<lparr>editingItemId := ed\<rparr>) = window_session st"
  "window_session (st\<lparr>history := h\<rparr>) = window_session st"
  "window_session (st\<lparr>historyIndex := i\<rparr>) = window_session st"
  "window_session (st\<lparr>migrationDone := m\<rparr>) = window_session st"
  by (simp_all add: window_session_def split: option.splits)

lemma set_boxes_fields [simp]:
  "boxes (window_session (set_boxes bs st)) = bs"
  "session_id (window_session (set_boxes bs st)) = session_id (window_session st)"
  "startedAt (window_session (set_boxes bs st)) = startedAt (window_session st)"
  "currentBox (set_boxes bs st) = currentBox st"
  "editingItemId (set_boxes bs st) = editingItemId st"
  "history (set_boxes bs st) = history st"
  "historyIndex (set_boxes bs st) = historyIndex st"
  "MAX_HISTORY_SIZE (set_boxes bs st) = MAX_HISTORY_SIZE st"
  "migrationDone (set_boxes bs st) = migrationDone st"
  by (simp_all add: set_boxes_def update_window_def window_session_def split: option.splits)

text \<open>An edit of the exported session reaches the session of \<open>data.js\<close> exactly while the
  two are one object.\<close>

lemma set_boxes_module:
  "currentSession (set_boxes bs st) =
     (if exportedSession st = None then (currentSession st)\<lparr>boxes := bs\<rparr> else currentSession st)"
  "(exportedSession (set_boxes bs st) = None) = (exportedSession st = None)"
  by (auto simp: set_boxes_def update_window_def split: option.splits)

lemma set_boxes_same: "set_boxes (boxes (window_session st)) st = st"
  by (simp add: set_boxes_def update_window_def window_session_def split: option.splits)

lemma normalize_Some: "boxNumber \<noteq> [] \<Longrightarrow> \<exists>k. normalizeBoxNumber (Some boxNumber) = Some k"
  by (auto simp: normalizeBoxNumber_def Let_def split: option.splits)



lemma box_keys:
  "normalizeBoxNumber (Some ''1'') = Some ''BOX001''"
  "normalizeBoxNumber (Some ''2'') = Some ''BOX002''"
  "normalizeBoxNumber (Some ''3'') = Some ''BOX003''"
  by (simp_all add: norm_defs char_defs to_number_def digit_val_def digits_value_def parseInt10_def
      digit_char_def number_toString_def decimal.simps padStart3_simps)

lemma json_copy_examples:
  "json_copy pen_session = pen_session" "json_copy pen_cup_session = pen_cup_session"
  by (simp_all add: json_copy_def json_box_def json_item_def json_qty_def pen_session_def
      pen_cup_session_def box_pen_def item_pen_def item_cup_def)






lemma findIndex_split:
  assumes "findIndex P xs = Some idx"
  shows "xs = take idx xs @ xs ! idx # drop (Suc idx) xs" "P (xs ! idx)"
    "\<forall>x \<in> set (take idx xs). \<not> P x"
  using findIndex_SomeD[OF assms] by (simp_all add: id_take_nth_drop)

lemma same_name_key: "same_name pname i = (name_key i = trim (toLowerCase pname))"
  by (simp add: same_name_def name_key_def)

lemma add_to_items_merge:
  assumes "parseQuantity itemName = (pname, pqty)" "same_name pname e"
    "list_all (\<lambda>i. \<not> same_name pname i) a"
  shows "add_to_items now fresh ctx itemName (a @ e # b) =
           a @ b @ [e\<lparr>qty := Some (num_add (qty_or1 (qty e)) pqty), addedAt := now\<rparr>]"
proof -
  have "findIndex (same_name pname) (a @ e # b) = Some (length a)"
    using assms by (intro findIndex_first) (simp_all add: list_all_iff)
  then show ?thesis
    using assms(1) by (simp add: add_to_items_def splice1_at)
qed

lemma add_to_items_new:
  assumes "parseQuantity itemName = (pname, pqty)" "list_all (\<lambda>i. \<not> same_name pname i) xs"
  shows "add_to_items now fresh ctx itemName xs =
           xs @ [\<lparr>item_id = fresh, name = pname, qty = Some pqty, addedAt = now,
                  isDuplicate = False, tags = ctx\<rparr>]"
proof -
  have "findIndex (same_name pname) xs = None"
    using assms(2) by (simp add: findIndex_None_iff list_all_iff)
  then show ?thesis using assms(1) by (simp add: add_to_items_def)
qed

lemma add_to_items_unique:
  assumes "unique_names xs"
  shows "unique_names (add_to_items now fresh ctx itemName xs)"
proof -
  obtain pname pqty where p: "parseQuantity itemName = (pname, pqty)"
    by (cases "parseQuantity itemName") auto
  show ?thesis
  proof (cases "findIndex (same_name pname) xs")
    case None
    then have n: "list_all (\<lambda>i. \<not> same_name pname i) xs"
      by (simp add: findIndex_None_iff list_all_iff)
    then have "trim (toLowerCase pname) \<notin> set (map name_key xs)"
      by (auto simp: list_all_iff same_name_key)
    then show ?thesis
      using assms by (simp add: add_to_items_new[OF p n] unique_names_def name_key_def)
  next
    case (Some idx)
    from findIndex_split[OF Some] obtain a e b where xs: "xs = a @ e # b"
      and e: "same_name pname e" and a: "list_all (\<lambda>i. \<not> same_name pname i) a"
      by (metis list_all_iff)
    show ?thesis
      using assms unfolding xs add_to_items_merge[OF p e a]
      by (auto simp: unique_names_def name_key_def)
  qed
qed

lemma ensureBoxExists_lookup:
  "map_of (boxes (ensureBoxExists k s)) k' =
     (if k' = k then Some (case map_of (boxes s) k of None \<Rightarrow> createEmptyBoxData
                           | Some b \<Rightarrow> ensureBoxDataShape (as_stored b))
      else map_of (boxes s) k')"
  by (simp add: ensureBoxExists_def map_of_obj_set split: option.splits)

lemma addItem_aliased:
  assumes "\<not> no_current_box st" "exportedSession st = None"
  shows "\<exists>st'. addItem now fresh ctx itemName st = Inr st' \<and>
     map_of (boxes (window_session st')) (key_str (currentBox st)) =
       Some ((case map_of (boxes (currentSession st)) (key_str (currentBox st)) of
                None \<Rightarrow> createEmptyBoxData | Some b \<Rightarrow> ensureBoxDataShape (as_stored b))
             \<lparr>items := add_to_items now fresh ctx itemName
                (items (case map_of (boxes (currentSession st)) (key_str (currentBox st)) of
                   None \<Rightarrow> createEmptyBoxData | Some b \<Rightarrow> ensureBoxDataShape (as_stored b)))\<rparr>)"
proof -
  let ?cb = "key_str (currentBox st)"
  let ?st1 = "st\<lparr>currentSession := ensureBoxExists ?cb (currentSession st)\<rparr>"
  have w: "window_session ?st1 = ensureBoxExists ?cb (currentSession st)"
    using assms(2) by (simp add: window_session_def)
  have m: "map_of (boxes (window_session ?st1)) ?cb =
      Some (case map_of (boxes (currentSession st)) ?cb of
              None \<Rightarrow> createEmptyBoxData | Some b \<Rightarrow> ensureBoxDataShape (as_stored b))"
    by (simp add: w ensureBoxExists_lookup)
  show ?thesis
    using assms(1) m by (simp add: addItem_def Let_def map_of_obj_set)
qed

lemma addItem_detached:
  assumes "\<not> no_current_box st" "exportedSession st = Some w"
    "map_of (boxes w) (key_str (currentBox st)) = Some box"
  shows "\<exists>st'. addItem now fresh ctx itemName st = Inr st' \<and>
     map_of (boxes (window_session st')) (key_str (currentBox st)) =
       Some (box\<lparr>items := add_to_items now fresh ctx itemName (items box)\<rparr>) \<and>
     currentSession st' = ensureBoxExists (key_str (currentBox st)) (currentSession st)"
proof -
  let ?cb = "key_str (currentBox st)"
  let ?st1 = "st\<lparr>currentSession := ensureBoxExists ?cb (currentSession st)\<rparr>"
  have w: "window_session ?st1 = w" "exportedSession ?st1 \<noteq> None"
    using assms(2) by (simp_all add: window_session_def)
  have m: "map_of (boxes (window_session ?st1)) ?cb = Some box"
    using assms(3) by (simp add: w)
  show ?thesis
    using assms(1,2) m by (simp add: addItem_def Let_def map_of_obj_set set_boxes_module)
qed

text \<open>The error path: the exported session is another object and lacks the active box.\<close>

lemma addItem_throws:
  assumes "\<not> no_current_box st" "exportedSession st = Some w"
    "map_of (boxes w) (key_str (currentBox st)) = None"
  shows "addItem now fresh ctx itemName st =
     Inl (TypeError, st\<lparr>currentSession := ensureBoxExists (key_str (currentBox st)) (currentSession st)\<rparr>)"
proof -
  let ?cb = "key_str (currentBox st)"
  let ?st1 = "st\<lparr>currentSession := ensureBoxExists ?cb (currentSession st)\<rparr>"
  have w: "window_session ?st1 = w"
    using assms(2) by (simp add: window_session_def)
  show ?thesis
    using assms(1,3) by (simp add: addItem_def Let_def w)
qed

lemma pen_parse: "parseQuantity ''pen'' = (''pen'', Fin 1)" "parseQuantity ''pen x2'' = (''pen'', Fin 2)"
  by (rule quantity_example_3, rule quantity_example_5)

text \<open>The run that leads to \<open>undone_state\<close>, and what \<open>deleteItem\<close> and \<open>addItem\<close> do there.\<close>

lemma undone_trace:
  "\<exists>s2 s3. addItem ''t0'' 7 [] ''pen'' (switchBox (Some ''1'') initial_state) = Inr s2 \<and>
      addItem ''t1'' 8 [] ''cup'' s2 = Inr s3 \<and> undo s3 = Some (undone_state, True)"
proof -
  let ?s1 = "initial_state\<lparr>currentBox := Some ''BOX001'',
      currentSession := empty_session\<lparr>boxes := [(''BOX001'', createEmptyBoxData)]\<rparr>\<rparr>"
  have 1: "switchBox (Some ''1'') initial_state = ?s1"
    by (simp add: switchBox_def box_keys Let_def truthy_def key_str_def initial_state_def
        window_session_def empty_session_def ensureBoxExists_def obj_set_def)
  let ?s2 = "initial_state\<lparr>currentBox := Some ''BOX001'', currentSession := pen_session,
      history := [pen_session], historyIndex := 0\<rparr>"
  have 2: "addItem ''t0'' 7 [] ''pen'' ?s1 = Inr ?s2"
    by (simp add: addItem_def no_current_box_def truthy_def key_str_def Let_def initial_state_def
        window_session_def empty_session_def ensureBoxExists_def obj_set_def shape_stored
        createEmptyBoxData_def add_to_items_def pen_parse set_boxes_def update_window_def
        saveStateToHistory_def slice0_def max_history_def json_copy_def json_box_def json_item_def
        json_qty_def pen_session_def box_pen_def item_pen_def)
  let ?s3 = "initial_state\<lparr>currentBox := Some ''BOX001'', currentSession := pen_cup_session,
      history := [pen_session, pen_cup_session], historyIndex := 1\<rparr>"
  have cup: "parseQuantity ''cup'' = (''cup'', Fin 1)"
    by (simp add: quantity_defs char_defs)
  have nm: "\<not> same_name ''cup'' item_pen"
    by (simp add: same_name_def item_pen_def char_defs)
  have 3: "addItem ''t1'' 8 [] ''cup'' ?s2 = Inr ?s3"
    using nm
    by (simp add: addItem_def no_current_box_def truthy_def key_str_def Let_def initial_state_def
        window_session_def ensureBoxExists_def obj_set_def shape_stored
        add_to_items_def cup set_boxes_def update_window_def
        saveStateToHistory_def slice0_def max_history_def json_copy_def json_box_def json_item_def
        json_qty_def pen_session_def pen_cup_session_def box_pen_def item_cup_def item_pen_def)
  have 4: "undo ?s3 = Some (undone_state, True)"
    by (simp add: undo_def snapshot_at_def json_copy_examples assign_session_def window_session_def
        initial_state_def undone_state_def)
  show ?thesis using 1 2 3 4 by simp
qed

lemma undone_add_throws:
  "\<exists>st'. addItem ''t2'' 9 [] ''mug'' (switchBox (Some ''2'') undone_state) = Inl (TypeError, st') \<and>
     map_of (boxes (currentSession st')) ''BOX002'' = Some createEmptyBoxData \<and>
     map_of (boxes (window_session st')) ''BOX002'' = None"
  by (simp add: switchBox_def box_keys Let_def truthy_def key_str_def undone_state_def
      window_session_def pen_cup_session_def pen_session_def ensureBoxExists_def obj_set_def
      addItem_def no_current_box_def shape_stored createEmptyBoxData_def)

lemma pen_twice:
  assumes "list_all (\<lambda>i. \<not> same_name ''pen'' i) xs"
  shows "add_to_items t2 f2 c2 ''pen x2'' (add_to_items t1 f1 c1 ''pen'' xs) =
           xs @ [\<lparr>item_id = f1, name = ''pen'', qty = Some (Fin 3), addedAt = t2,
                  isDuplicate = False, tags = c1\<rparr>]"
proof -
  let ?p = "\<lparr>item_id = f1, name = ''pen'', qty = Some (Fin 1), addedAt = t1, isDuplicate = False, tags = c1\<rparr>"
  have 1: "add_to_items t1 f1 c1 ''pen'' xs = xs @ ?p # []"
    using add_to_items_new[OF pen_parse(1) assms] by simp
  have s: "same_name ''pen'' ?p" by (simp add: same_name_def)
  have "add_to_items t2 f2 c2 ''pen x2'' (xs @ ?p # []) =
      xs @ [] @ [?p\<lparr>qty := Some (num_add (qty_or1 (qty ?p)) (Fin 2)), addedAt := t2\<rparr>]"
    using pen_parse(2) s assms by (rule add_to_items_merge)
  then show ?thesis
    by (simp add: 1 num_add_def qty_or1_def or1_def to_number_def)
qed

lemma saveEditedItem_box:
  assumes "editingItemId st = Some (bn, itemId)"
    "map_of (boxes (window_session st)) (key_str bn) = Some box"
    "items box = a @ e # b" "item_id e = itemId" "list_all (\<lambda>j. item_id j \<noteq> itemId) a"
    "parseQuantity (trim newName) = (pname, pqty)"
  shows "\<exists>st'. saveEditedItem newName st = Inr st' \<and> editingItemId st' = None \<and>
           map_of (boxes (window_session st')) (key_str bn) =
             Some (box\<lparr>items := a @ e\<lparr>name := pname, qty := Some pqty, isDuplicate := False\<rparr> # b\<rparr>)"
proof -
  have f: "findIndex (\<lambda>i. item_id i = itemId) (items box) = Some (length a)"
    using assms(3,4,5) by (simp add: findIndex_first list_all_iff)
  show ?thesis
    using assms(1,2,3,6) f by (simp add: saveEditedItem_def map_of_obj_set)
qed

lemma edit_keeps_unique:
  assumes "unique_names (a @ e # b)" "list_all (\<lambda>i. name_key i \<noteq> trim (toLowerCase pname)) (a @ b)"
  shows "unique_names (a @ e\<lparr>name := pname, qty := q, isDuplicate := d\<rparr> # b)"
  using assms by (auto simp: unique_names_def name_key_def list_all_iff)

text \<open>
  C1, as amended, for ASCII names. \<open>addItem\<close> keeps the names of a box unique: an item
  whose parsed name matches an existing one (up to case and surrounding blanks) is merged
  into it, the quantities added, the time refreshed, the item moved to the end; any other
  item is appended. \<open>addItem\<close> makes this change to the active box of the exported session:
  the box \<open>ensureBoxExists\<close> has made sure of while the exported session is the session
  of \<open>data.js\<close>, and the box the exported session has otherwise. Adding \<open>pen\<close> and then
  \<open>pen x2\<close> to a box without a pen leaves one pen of quantity 3 at the end.
  \<open>saveEditedItem\<close> writes the parsed name and quantity into the item with the edited id
  and looks at no other item: the names stay unique when no other item of the box has
  the new name.
\<close>

theorem item_names_unique:
  assumes "ascii itemName" "ascii newName"
  shows
  "(ascii_items xs \<and> unique_names xs \<longrightarrow> unique_names (add_to_items now fresh ctx itemName xs)) \<and>
   (ascii_items (a @ e # b) \<and> parseQuantity itemName = (pname, pqty) \<and> same_name pname e \<and>
    list_all (\<lambda>i. \<not> same_name pname i) a \<longrightarrow>
      add_to_items now fresh ctx itemName (a @ e # b) =
        a @ b @ [e\<lparr>qty := Some (num_add (qty_or1 (qty e)) pqty), addedAt := now\<rparr>]) \<and>
   (ascii_items xs \<and> parseQuantity itemName = (pname, pqty) \<and>
    list_all (\<lambda>i. \<not> same_name pname i) xs \<longrightarrow>
      add_to_items now fresh ctx itemName xs =
        xs @ [\<lparr>item_id = fresh, name = pname, qty = Some pqty, addedAt = now,
               isDuplicate = False, tags = ctx\<rparr>]) \<and>
   (\<not> no_current_box st \<and> exportedSession st = None \<and> ascii_session (currentSession st) \<longrightarrow>
      (\<exists>st'. addItem now fresh ctx itemName st = Inr st' \<and>
         map_of (boxes (window_session st')) (key_str (currentBox st)) =
           Some ((case map_of (boxes (currentSession st)) (key_str (currentBox st)) of
                    None \<Rightarrow> createEmptyBoxData | Some b \<Rightarrow> ensureBoxDataShape (as_stored b))
                 \<lparr>items := add_to_items now fresh ctx itemName
                    (items (case map_of (boxes (currentSession st)) (key_str (currentBox st)) of
                       None \<Rightarrow> createEmptyBoxData | Some b \<Rightarrow> ensureBoxDataShape (as_stored b)))\<rparr>))) \<and>
   (\<not> no_current_box st \<and> exportedSession st = Some w \<and>
    map_of (boxes w) (key_str (currentBox st)) = Some box \<and> ascii_items (items box) \<longrightarrow>
      (\<exists>st'. addItem now fresh ctx itemName st = Inr st' \<and>
         map_of (boxes (window_session st')) (key_str (currentBox st)) =
           Some (box\<lparr>items := add_to_items now fresh ctx itemName (items box)\<rparr>))) \<and>
   (ascii_items xs \<and> list_all (\<lambda>i. \<not> same_name ''pen'' i) xs \<longrightarrow>
      add_to_items now' fresh' ctx' ''pen x2'' (add_to_items now fresh ctx ''pen'' xs) =
        xs @ [\<lparr>item_id = fresh, name = ''pen'', qty = Some (Fin 3), addedAt = now',
               isDuplicate = False, tags = ctx\<rparr>]) \<and>
   (editingItemId st = Some (bn, itemId) \<and>
    map_of (boxes (window_session st)) (key_str bn) = Some box \<and> ascii_items (items box) \<and>
    items box = a @ e # b \<and> item_id e = itemId \<and> list_all (\<lambda>j. item_id j \<noteq> itemId) a \<and>
    parseQuantity (trim newName) = (pname, pqty) \<longrightarrow>
      (\<exists>st'. saveEditedItem newName st = Inr st' \<and>
         map_of (boxes (window_session st')) (key_str bn) =
           Some (box\<lparr>items := a @ e\<lparr>name := pname, qty := Some pqty, isDuplicate := False\<rparr> # b\<rparr>)) \<and>
      (unique_names (a @ e # b) \<and>
       list_all (\<lambda>i. name_key i \<noteq> trim (toLowerCase pname)) (a @ b) \<longrightarrow>
         unique_names (a @ e\<lparr>name := pname, qty := Some pqty, isDuplicate := False\<rparr> # b)))"
proof -
  have 1: "unique_names xs \<Longrightarrow> unique_names (add_to_items now fresh ctx itemName xs)"
    by (rule add_to_items_unique)
  note 2 = add_to_items_merge[where itemName=itemName and pname=pname and pqty=pqty and e=e
      and a=a and now=now and fresh=fresh and ctx=ctx and b=b]
  note 3 = add_to_items_new[where itemName=itemName and pname=pname and pqty=pqty and xs=xs
      and now=now and fresh=fresh and ctx=ctx]
  note 4 = addItem_aliased[where st=st and now=now and fresh=fresh and ctx=ctx and itemName=itemName]
  have 5: "\<not> no_current_box st \<and> exportedSession st = Some w \<and>
    map_of (boxes w) (key_str (currentBox st)) = Some box \<Longrightarrow>
      (\<exists>st'. addItem now fresh ctx itemName st = Inr st' \<and>
         map_of (boxes (window_session st')) (key_str (currentBox st)) =
           Some (box\<lparr>items := add_to_items now fresh ctx itemName (items box)\<rparr>))"
    using addItem_detached[where st=st and w=w and box=box and now=now and fresh=fresh and ctx=ctx
        and itemName=itemName] by blast
  note 6 = pen_twice[where xs=xs and ?t1.0=now and ?f1.0=fresh and ?c1.0=ctx and ?t2.0=now'
      and ?f2.0=fresh' and ?c2.0=ctx']
  have 7: "editingItemId st = Some (bn, itemId) \<and>
    map_of (boxes (window_session st)) (key_str bn) = Some box \<and>
    items box = a @ e # b \<and> item_id e = itemId \<and> list_all (\<lambda>j. item_id j \<noteq> itemId) a \<and>
    parseQuantity (trim newName) = (pname, pqty) \<Longrightarrow>
      (\<exists>st'. saveEditedItem newName st = Inr st' \<and>
         map_of (boxes (window_session st')) (key_str bn) =
           Some (box\<lparr>items := a @ e\<lparr>name := pname, qty := Some pqty, isDuplicate := False\<rparr> # b\<rparr>))"
    using saveEditedItem_box[where st=st and bn=bn and itemId=itemId and box=box and a=a and e=e
        and b=b and newName=newName and pname=pname and pqty=pqty] by blast
  note 8 = edit_keeps_unique[where a=a and e=e and b=b and pname=pname and q="Some pqty" and d=False]
  show ?thesis
    using 1 2 3 4 5 6 7 8 by blast
qed

lemma example_keys:
  "name_key item_pen = ''pen''" "name_key item_cup = ''cup''"
  "trim (toLowerCase ''pen'') = ''pen''" "trim (toLowerCase ''mug'') = ''mug''"
  "trim ''mug'' = ''mug''" "trim ''pen'' = ''pen''"
  by (simp_all add: name_key_def item_pen_def item_cup_def char_defs)

lemma mug_parse: "parseQuantity ''mug'' = (''mug'', Fin 1)"
  by (simp add: quantity_defs char_defs)

theorem item_names_unique_witness:
  "ascii ''pen x2'' \<and> ascii ''pen'' \<and> ascii ''mug'' \<and>
   ascii_items [item_pen] \<and> ascii_items [item_cup] \<and> ascii_items [item_pen, item_cup] \<and>
   (unique_names [item_pen] \<and> unique_names (add_to_items ''t2'' 9 [] ''pen x2'' [item_pen])) \<and>
   (parseQuantity ''pen x2'' = (''pen'', Fin 2) \<and> same_name ''pen'' item_pen \<and>
      list_all (\<lambda>i. \<not> same_name ''pen'' i) [item_cup] \<and>
      add_to_items ''t2'' 9 [] ''pen x2'' ([item_cup] @ item_pen # []) =
        [item_cup] @ [] @ [item_pen\<lparr>qty := Some (num_add (qty_or1 (qty item_pen)) (Fin 2)), addedAt := ''t2''\<rparr>]) \<and>
   (parseQuantity ''pen'' = (''pen'', Fin 1) \<and>
      add_to_items ''t2'' 9 [] ''pen'' [item_cup] =
        [item_cup] @ [\<lparr>item_id = 9, name = ''pen'', qty = Some (Fin 1), addedAt = ''t2'',
                       isDuplicate = False, tags = []\<rparr>]) \<and>
   (\<not> no_current_box example_state \<and> exportedSession example_state = None \<and>
      ascii_session (currentSession example_state) \<and>
      (\<exists>st'. addItem ''t2'' 9 [] ''pen x2'' example_state = Inr st' \<and>
         map_of (boxes (window_session st')) ''BOX001'' =
           Some (box_pen\<lparr>items := add_to_items ''t2'' 9 [] ''pen x2'' [item_pen]\<rparr>))) \<and>
   (\<not> no_current_box undone_state \<and> exportedSession undone_state = Some pen_cup_session \<and>
      map_of (boxes pen_cup_session) ''BOX001'' = Some (box_pen\<lparr>items := [item_pen, item_cup]\<rparr>) \<and>
      (\<exists>st'. addItem ''t2'' 9 [] ''pen x2'' undone_state = Inr st' \<and>
         map_of (boxes (window_session st')) ''BOX001'' =
           Some (box_pen\<lparr>items := add_to_items ''t2'' 9 [] ''pen x2'' [item_pen, item_cup]\<rparr>))) \<and>
   add_to_items ''t3'' 10 [] ''pen x2'' (add_to_items ''t2'' 9 [] ''pen'' [item_cup]) =
     [item_cup] @ [\<lparr>item_id = 9, name = ''pen'', qty = Some (Fin 3), addedAt = ''t3'',
                    isDuplicate = False, tags = []\<rparr>] \<and>
   (editingItemId edit_state = Some (Some ''BOX001'', 8) \<and>
      map_of (boxes (window_session edit_state)) (key_str (Some ''BOX001''))
        = Some (box_pen\<lparr>items := [item_pen, item_cup]\<rparr>) \<and>
      items (box_pen\<lparr>items := [item_pen, item_cup]\<rparr>) = [item_pen] @ item_cup # [] \<and>
      item_id item_cup = 8 \<and> list_all (\<lambda>j. item_id j \<noteq> 8) [item_pen] \<and>
      parseQuantity (trim ''mug'') = (''mug'', Fin 1) \<and>
      unique_names ([item_pen] @ item_cup # []) \<and>
      list_all (\<lambda>i. name_key i \<noteq> trim (toLowerCase ''mug'')) ([item_pen] @ []) \<and>
      (\<exists>st'. saveEditedItem ''mug'' edit_state = Inr st' \<and>
         map_of (boxes (window_session st')) (key_str (Some ''BOX001'')) =
           Some (box_pen\<lparr>items := [item_pen, item_cup]\<rparr>
                   \<lparr>items := [item_pen] @ item_cup\<lparr>name := ''mug'', qty := Some (Fin 1), isDuplicate := False\<rparr> # []\<rparr>)) \<and>
      unique_names ([item_pen] @ item_cup\<lparr>name := ''mug'', qty := Some (Fin 1), isDuplicate := False\<rparr> # []))"
proof -
  have as: "ascii ''pen x2''" "ascii ''pen''" "ascii ''mug''"
    "ascii_items [item_pen]" "ascii_items [item_cup]" "ascii_items [item_pen, item_cup]"
    "ascii_items ([item_cup] @ item_pen # [])"
    "ascii_items (items (box_pen\<lparr>items := [item_pen, item_cup]\<rparr>))"
    by (simp_all add: ascii_def ascii_items_def item_pen_def item_cup_def)
  have u: "unique_names [item_pen]" "unique_names ([item_pen] @ item_cup # [])"
    by (simp_all add: unique_names_def example_keys)
  have s: "same_name ''pen'' item_pen" "list_all (\<lambda>i. \<not> same_name ''pen'' i) [item_cup]"
    "list_all (\<lambda>i. name_key i \<noteq> trim (toLowerCase ''mug'')) ([item_pen] @ [])"
    by (simp_all add: same_name_key example_keys)
  have c: "\<not> no_current_box example_state" "key_str (currentBox example_state) = ''BOX001''"
    "exportedSession example_state = None"
    "map_of (boxes (currentSession example_state)) ''BOX001'' = Some box_pen"
    "ensureBoxDataShape (as_stored box_pen) = box_pen" "items box_pen = [item_pen]"
    by (simp_all add: example_state_def no_current_box_def truthy_def key_str_def
        shape_stored box_pen_def)
  have c': "ascii_session (currentSession example_state)"
    by (simp add: example_state_def ascii_session_def ascii_items_def ascii_def box_pen_def
        box_cup_def item_pen_def item_cup_def)
  have d: "\<not> no_current_box undone_state" "key_str (currentBox undone_state) = ''BOX001''"
    "exportedSession undone_state = Some pen_cup_session"
    "map_of (boxes pen_cup_session) ''BOX001'' = Some (box_pen\<lparr>items := [item_pen, item_cup]\<rparr>)"
    by (simp_all add: undone_state_def pen_cup_session_def no_current_box_def truthy_def key_str_def)
  have e: "editingItemId edit_state = Some (Some ''BOX001'', 8)"
    "map_of (boxes (window_session edit_state)) (key_str (Some ''BOX001''))
        = Some (box_pen\<lparr>items := [item_pen, item_cup]\<rparr>)"
    "items (box_pen\<lparr>items := [item_pen, item_cup]\<rparr>) = [item_pen] @ item_cup # []"
    "item_id item_cup = 8" "list_all (\<lambda>j. item_id j \<noteq> 8) [item_pen]"
    "parseQuantity (trim ''mug'') = (''mug'', Fin 1)"
    by (simp_all add: edit_state_def window_session_def key_str_def item_cup_def item_pen_def
        example_keys mug_parse)
  note t1 = item_names_unique [OF as(1) as(3), where xs="[item_pen]" and now="''t2''" and fresh=9
      and ctx="[]" and pname="''pen''" and pqty="Fin 2" and e=item_pen
      and a="[item_cup]" and b="[]" and st=example_state]
  note t2 = item_names_unique [OF as(2) as(3), where xs="[item_cup]" and now="''t2''" and fresh=9
      and ctx="[]" and pname="''pen''" and pqty="Fin 1" and now'="''t3''" and fresh'=10
      and ctx'="[]"]
  note t3 = item_names_unique [OF as(1) as(3), where st=edit_state and bn="Some ''BOX001''" and itemId=8
      and box="box_pen\<lparr>items := [item_pen, item_cup]\<rparr>" and a="[item_pen]" and e=item_cup and b="[]"
      and pname="''mug''" and pqty="Fin 1"]
  note t4 = item_names_unique [OF as(1) as(3), where st=undone_state and w=pen_cup_session
      and box="box_pen\<lparr>items := [item_pen, item_cup]\<rparr>" and now="''t2''" and fresh=9 and ctx="[]"]
  have w1: "unique_names (add_to_items ''t2'' 9 [] ''pen x2'' [item_pen])"
    using t1 [THEN conjunct1] u(1) as(4) by blast
  have w2: "add_to_items ''t2'' 9 [] ''pen x2'' ([item_cup] @ item_pen # []) =
        [item_cup] @ [] @ [item_pen\<lparr>qty := Some (num_add (qty_or1 (qty item_pen)) (Fin 2)), addedAt := ''t2''\<rparr>]"
    using t1 [THEN conjunct2, THEN conjunct1] pen_parse(2) s(1,2) as(7) by blast
  have w3: "add_to_items ''t2'' 9 [] ''pen'' [item_cup] =
        [item_cup] @ [\<lparr>item_id = 9, name = ''pen'', qty = Some (Fin 1), addedAt = ''t2'',
                       isDuplicate = False, tags = []\<rparr>]"
    using t2 [THEN conjunct2, THEN conjunct2, THEN conjunct1] pen_parse(1) s(2) as(5) by blast
  have w4: "\<exists>st'. addItem ''t2'' 9 [] ''pen x2'' example_state = Inr st' \<and>
         map_of (boxes (window_session st')) ''BOX001'' =
           Some (box_pen\<lparr>items := add_to_items ''t2'' 9 [] ''pen x2'' [item_pen]\<rparr>)"
    using t1 [THEN conjunct2, THEN conjunct2, THEN conjunct2, THEN conjunct1] c c' by simp
  have w4': "\<exists>st'. addItem ''t2'' 9 [] ''pen x2'' undone_state = Inr st' \<and>
         map_of (boxes (window_session st')) ''BOX001'' =
           Some (box_pen\<lparr>items := add_to_items ''t2'' 9 [] ''pen x2'' [item_pen, item_cup]\<rparr>)"
    using t4 [THEN conjunct2, THEN conjunct2, THEN conjunct2, THEN conjunct2, THEN conjunct1] d as(8)
    by simp
  have w5: "add_to_items ''t3'' 10 [] ''pen x2'' (add_to_items ''t2'' 9 [] ''pen'' [item_cup]) =
     [item_cup] @ [\<lparr>item_id = 9, name = ''pen'', qty = Some (Fin 3), addedAt = ''t3'',
                    isDuplicate = False, tags = []\<rparr>]"
    using t2 [THEN conjunct2, THEN conjunct2, THEN conjunct2, THEN conjunct2, THEN conjunct2,
        THEN conjunct1] s(2) as(5) by blast
  have w6: "(\<exists>st'. saveEditedItem ''mug'' edit_state = Inr st' \<and>
         map_of (boxes (window_session st')) (key_str (Some ''BOX001'')) =
           Some (box_pen\<lparr>items := [item_pen, item_cup]\<rparr>
                   \<lparr>items := [item_pen] @ item_cup\<lparr>name := ''mug'', qty := Some (Fin 1), isDuplicate := False\<rparr> # []\<rparr>)) \<and>
      unique_names ([item_pen] @ item_cup\<lparr>name := ''mug'', qty := Some (Fin 1), isDuplicate := False\<rparr> # [])"
    using t3 [THEN conjunct2, THEN conjunct2, THEN conjunct2, THEN conjunct2, THEN conjunct2,
        THEN conjunct2] e u(2) s(3) as(8) by blast
  show ?thesis
    using w1 w2 w3 w4 w4' w5 w6 u s c(1,3) c' d(1,3,4) e pen_parse as(1-6) by blast
qed

text \<open>
  The claim as worded (saving an edited name keeps names unique) fails: in a box with a
  pen and a cup, renaming the cup to \<open>pen\<close> leaves two items named \<open>pen\<close>.
\<close>

theorem saveEditedItem_duplicate_counterexample:
  "ascii ''pen'' \<and> ascii_items [item_pen, item_cup] \<and> unique_names [item_pen, item_cup] \<and>
   editingItemId edit_state = Some (Some ''BOX001'', 8) \<and>
   map_of (boxes (window_session edit_state)) ''BOX001'' = Some (box_pen\<lparr>items := [item_pen, item_cup]\<rparr>) \<and>
   \<not> isl (saveEditedItem ''pen'' edit_state) \<and>
   map_option items (map_of (boxes (window_session (projr (saveEditedItem ''pen'' edit_state)))) ''BOX001'')
     = Some [item_pen, item_cup\<lparr>name := ''pen'', qty := Some (Fin 1), isDuplicate := False\<rparr>] \<and>
   map name [item_pen, item_cup\<lparr>name := ''pen'', qty := Some (Fin 1), isDuplicate := False\<rparr>]
     = [''pen'', ''pen''] \<and>
   \<not> unique_names [item_pen, item_cup\<lparr>name := ''pen'', qty := Some (Fin 1), isDuplicate := False\<rparr>]"
proof -
  have a: "ascii ''pen''" "ascii_items [item_pen, item_cup]"
    by (simp_all add: ascii_def ascii_items_def item_pen_def item_cup_def)
  have p: "parseQuantity (trim ''pen'') = (''pen'', Fin 1)"
    by (simp add: example_keys pen_parse)
  have u: "unique_names [item_pen, item_cup]"
    by (simp add: unique_names_def example_keys)
  have e: "editingItemId edit_state = Some (Some ''BOX001'', 8)"
    "map_of (boxes (window_session edit_state)) ''BOX001'' = Some (box_pen\<lparr>items := [item_pen, item_cup]\<rparr>)"
    by (simp_all add: edit_state_def window_session_def)
  have s: "saveEditedItem ''pen'' edit_state =
      Inr ((saveStateToHistory (set_boxes (obj_set (boxes (window_session edit_state)) ''BOX001''
        (box_pen\<lparr>items := [item_pen, item_cup\<lparr>name := ''pen'', qty := Some (Fin 1), isDuplicate := False\<rparr>]\<rparr>))
        edit_state))\<lparr>editingItemId := None\<rparr>)"
  proof -
    have i: "item_id item_pen = 7" "item_id item_cup = 8"
      by (simp_all add: item_pen_def item_cup_def)
    show ?thesis by (simp add: saveEditedItem_def e key_str_def p i)
  qed
  have n: "map name [item_pen, item_cup\<lparr>name := ''pen'', qty := Some (Fin 1), isDuplicate := False\<rparr>]
     = [''pen'', ''pen'']"
    by (simp add: item_pen_def)
  have d: "\<not> unique_names [item_pen, item_cup\<lparr>name := ''pen'', qty := Some (Fin 1), isDuplicate := False\<rparr>]"
    by (simp add: unique_names_def name_key_def item_pen_def)
  show ?thesis
    using a u e n d by (simp add: s map_of_obj_set)
qed

section \<open>The completion invariant\<close>

lemma box_inv_fields:
  "completed b' = completed b \<Longrightarrow> completedAt b' = completedAt b \<Longrightarrow> box_inv b' = box_inv b"
  by (simp add: box_inv_def)

lemma box_inv_empty [simp]: "box_inv createEmptyBoxData"
  by (simp add: box_inv_def createEmptyBoxData_def)

text \<open>The repaired record satisfies the invariant exactly when the stored one does.\<close>

lemma box_inv_repaired: "box_inv (ensureBoxDataShape r) = stored_inv r"
  by (cases r) (auto simp: box_inv_def ensureBoxDataShape_def stored_inv_def truthy_def
      createEmptyBoxData_def split: option.splits)

lemma box_inv_shape: "box_inv b \<Longrightarrow> box_inv (ensureBoxDataShape (as_stored b))"
  by (auto simp: box_inv_def shape_stored truthy_def)

lemma shape_fields [simp]:
  "items (ensureBoxDataShape (as_stored b)) = items b"
  "completed (ensureBoxDataShape (as_stored b)) = completed b"
  "secondaryLocation (ensureBoxDataShape (as_stored b)) = secondaryLocation b"
  by (simp_all add: shape_stored)

lemma box_inv_first: "box_inv b \<Longrightarrow> box_inv (first_box b)"
  by (auto simp: box_inv_def first_box_def truthy_def)

lemma box_inv_merge: "box_inv e \<Longrightarrow> box_inv s \<Longrightarrow> box_inv (merge_box e s)"
  by (auto simp: box_inv_def merge_box_def Let_def shape_stored truthy_def split: if_splits)

lemma box_inv_mark: "now \<noteq> [] \<Longrightarrow> box_inv b \<Longrightarrow> box_inv (mark_box now b)"
  by (auto simp: box_inv_def mark_box_def truthy_def)

lemma box_inv_json [simp]: "box_inv (json_box b) = box_inv b"
  by (simp add: box_inv_def json_box_def)

lemma session_inv_all: "session_inv s = all_inv (boxes s)"
  by (simp add: session_inv_def all_inv_def list_all_iff)

lemma all_inv_lookup: "all_inv bs \<Longrightarrow> map_of bs k = Some b \<Longrightarrow> box_inv b"
  by (auto simp: all_inv_def dest: map_of_SomeD)

lemma all_inv_obj_set: "all_inv bs \<Longrightarrow> box_inv v \<Longrightarrow> all_inv (obj_set bs k v)"
  by (auto simp: all_inv_def obj_set_def split: if_splits)

lemma all_inv_obj_delete: "all_inv bs \<Longrightarrow> all_inv (obj_delete bs k)"
  by (auto simp: all_inv_def obj_delete_def)

lemma all_inv_map: "all_inv bs \<Longrightarrow> (\<And>b. box_inv b \<Longrightarrow> box_inv (f b)) \<Longrightarrow>
    all_inv (map (\<lambda>(k, b). (k, f b)) bs)"
  by (auto simp: all_inv_def)

lemma all_inv_loop: "all_inv bs \<Longrightarrow> all_inv acc \<Longrightarrow> all_inv (normalize_loop bs acc)"
proof (induction bs arbitrary: acc)
  case Nil
  then show ?case by simp
next
  case (Cons kb bs)
  obtain k b where kb: "kb = (k, b)" by (cases kb) auto
  have b: "box_inv b" and bs: "all_inv bs" using Cons.prems(1) by (auto simp: all_inv_def kb)
  let ?key = "key_str (normalizeBoxNumber (Some k))"
  let ?acc' = "case map_of acc ?key of
              Some existing \<Rightarrow> obj_set acc ?key (merge_box existing (ensureBoxDataShape (as_stored b)))
            | None \<Rightarrow> obj_set acc ?key (first_box (ensureBoxDataShape (as_stored b)))"
  have "all_inv ?acc'"
    using Cons.prems(2) b
    by (auto split: option.splits intro!: all_inv_obj_set box_inv_first box_inv_merge box_inv_shape
        dest: all_inv_lookup)
  then have "all_inv (normalize_loop bs ?acc')" using bs by (intro Cons.IH)
  then show ?case by (simp add: kb Let_def)
qed

lemma session_inv_normalize: "session_inv s \<Longrightarrow> session_inv (normalizeSessionBoxes s)"
proof -
  assume "session_inv s"
  then have "all_inv (normalize_loop (boxes s) [])"
    by (intro all_inv_loop) (simp_all add: session_inv_all all_inv_def)
  then have "all_inv (normalizeItemQuantities (normalize_loop (boxes s) []))"
    unfolding normalizeItemQuantities_def by (rule all_inv_map) (simp add: box_inv_def)
  then show ?thesis by (simp add: session_inv_all normalizeSessionBoxes_def)
qed

lemma session_inv_json: "session_inv (json_copy s) = session_inv s"
  by (auto simp: session_inv_all all_inv_def json_copy_def)

lemma session_inv_ensure: "session_inv s \<Longrightarrow> session_inv (ensureBoxExists k s)"
  unfolding session_inv_all ensureBoxExists_def
  by (auto split: option.splits intro!: all_inv_obj_set box_inv_shape dest: all_inv_lookup)

lemma box_inv_upd [simp]:
  "box_inv (b\<lparr>items := xs\<rparr>) = box_inv b"
  "box_inv (b\<lparr>secondaryLocation := v\<rparr>) = box_inv b"
  by (simp_all add: box_inv_def)

lemma box_inv_toggle:
  "now \<noteq> [] \<Longrightarrow>
     box_inv (b\<lparr>completed := \<not> completed b, completedAt := (if \<not> completed b then Some now else None)\<rparr>)"
  by (simp add: box_inv_def truthy_def)

text \<open>The invariant of a state under the steps the operations are made of.\<close>

lemma state_inv_save: "state_inv st \<Longrightarrow> state_inv (saveStateToHistory st)"
proof -
  assume a: "state_inv st"
  let ?h2 = "slice0 (history st) (historyIndex st + 1) @ [json_copy (currentSession st)]"
  have h2: "\<forall>h \<in> set ?h2. session_inv h"
    using a by (auto simp: state_inv_def slice0_def session_inv_json dest: in_set_takeD)
  have "set (tl ?h2) \<subseteq> set ?h2" by (cases ?h2) auto
  then have t: "\<forall>h \<in> set (tl ?h2). session_inv h" using h2 by blast
  have "history (saveStateToHistory st) = ?h2 \<or> history (saveStateToHistory st) = tl ?h2"
    by (simp add: saveStateToHistory_def Let_def)
  then have "\<forall>h \<in> set (history (saveStateToHistory st)). session_inv h"
    using h2 t by auto
  then show ?thesis using a by (simp add: state_inv_def)
qed

lemma state_inv_set_boxes:
  "state_inv st \<Longrightarrow> all_inv bs \<Longrightarrow> state_inv (set_boxes bs st)"
  by (auto simp: state_inv_def session_inv_all set_boxes_module)

lemma state_inv_window: "state_inv st \<Longrightarrow> all_inv (boxes (window_session st))"
  by (simp add: state_inv_def session_inv_all)

lemma state_inv_lookup:
  "state_inv st \<Longrightarrow> map_of (boxes (window_session st)) k = Some b \<Longrightarrow> box_inv b"
  by (blast dest: state_inv_window all_inv_lookup)

lemma state_inv_module:
  "state_inv st \<Longrightarrow> session_inv s \<Longrightarrow> state_inv (st\<lparr>currentSession := s\<rparr>)"
  by (auto simp: state_inv_def window_session_def split: option.splits)

lemma state_inv_assign:
  "state_inv st \<Longrightarrow> session_inv s \<Longrightarrow> state_inv (assign_session s st)"
  by (auto simp: state_inv_def assign_session_def window_session_def split: option.splits)

lemma state_inv_other [simp]:
  "state_inv (st\<lparr>currentBox := cb\<rparr>) = state_inv st"
  "state_inv (st\<lparr>editingItemId := ed\<rparr>) = state_inv st"
  "state_inv (st\<lparr>historyIndex := i\<rparr>) = state_inv st"
  "state_inv (st\<lparr>migrationDone := m\<rparr>) = state_inv st"
  by (simp_all add: state_inv_def)

lemma state_inv_toggle: "state_inv st \<Longrightarrow> now \<noteq> [] \<Longrightarrow> state_inv (toggleBoxComplete now bn st)"
  unfolding toggleBoxComplete_def Let_def
  by (auto split: option.splits intro!: state_inv_save state_inv_set_boxes all_inv_obj_set
      dest: state_inv_window simp: box_inv_def truthy_def)

lemma state_inv_delete: "state_inv st \<Longrightarrow> state_inv (deleteItem bn itemId st)"
  unfolding deleteItem_def Let_def
  by (auto split: option.splits intro!: state_inv_save state_inv_set_boxes all_inv_obj_set
      all_inv_obj_delete dest: state_inv_window state_inv_lookup)

lemma state_inv_secondary: "state_inv st \<Longrightarrow> state_inv (setSecondaryLocation v st)"
  unfolding setSecondaryLocation_def
  by (auto split: option.splits intro!: state_inv_save state_inv_set_boxes all_inv_obj_set
      dest: state_inv_window state_inv_lookup)

lemma state_inv_save_secondary:
  "state_inv st \<Longrightarrow> state_inv (fst (saveSecondaryLocation inputValue st))"
  by (auto simp: saveSecondaryLocation_def Let_def state_inv_secondary split: option.splits)

lemma state_inv_ensure:
  "state_inv st \<Longrightarrow> state_inv (st\<lparr>currentSession := ensureBoxExists k (currentSession st)\<rparr>)"
  by (intro state_inv_module session_inv_ensure) (simp_all add: state_inv_def)

lemma state_inv_switch: "state_inv st \<Longrightarrow> state_inv (switchBox boxNumber st)"
proof -
  assume a: "state_inv st"
  have "state_inv (st\<lparr>currentBox := cb\<rparr>\<lparr>currentSession :=
      ensureBoxExists k (currentSession (st\<lparr>currentBox := cb\<rparr>))\<rparr>)" for cb k
    by (rule state_inv_ensure) (simp add: a)
  then show ?thesis using a by (simp add: switchBox_def Let_def)
qed

lemma state_inv_add:
  assumes "state_inv st"
  shows "addItem now fresh ctx nm st = Inr st' \<Longrightarrow> state_inv st'"
    and "addItem now fresh ctx nm st = Inl (e, st') \<Longrightarrow> state_inv st'"
proof -
  let ?cb = "key_str (currentBox st)"
  let ?st1 = "st\<lparr>currentSession := ensureBoxExists ?cb (currentSession st)\<rparr>"
  have s1: "state_inv ?st1" using assms by (rule state_inv_ensure)
  have ok: "state_inv (saveStateToHistory (set_boxes (obj_set (boxes (window_session ?st1)) ?cb
      (box\<lparr>items := xs\<rparr>)) ?st1))"
    if "map_of (boxes (window_session ?st1)) ?cb = Some box" for box xs
  proof -
    have "box_inv box" using s1 that by (rule state_inv_lookup)
    then show ?thesis
      using s1 by (intro state_inv_save state_inv_set_boxes all_inv_obj_set state_inv_window) simp_all
  qed
  show "addItem now fresh ctx nm st = Inr st' \<Longrightarrow> state_inv st'"
    using assms ok by (auto simp: addItem_def Let_def split: if_splits option.splits)
  show "addItem now fresh ctx nm st = Inl (e, st') \<Longrightarrow> state_inv st'"
    using s1 by (auto simp: addItem_def Let_def split: if_splits option.splits)
qed

lemma state_inv_edit_start:
  assumes "state_inv st"
  shows "startEditItem bn itemId st = Inr st' \<Longrightarrow> state_inv st'"
    and "startEditItem bn itemId st = Inl (e, st') \<Longrightarrow> state_inv st'"
  using assms by (auto simp: startEditItem_def Let_def split: option.splits)

lemma state_inv_edit: "state_inv st \<Longrightarrow> saveEditedItem nm st = Inr st' \<Longrightarrow> state_inv st'"
proof -
  assume a: "state_inv st" and e: "saveEditedItem nm st = Inr st'"
  have ok: "state_inv (saveStateToHistory (set_boxes (obj_set (boxes (window_session st)) k
      (box\<lparr>items := xs\<rparr>)) st))"
    if "map_of (boxes (window_session st)) k = Some box" for box xs k
  proof -
    have "box_inv box" using a that by (rule state_inv_lookup)
    then show ?thesis
      using a by (intro state_inv_save state_inv_set_boxes all_inv_obj_set state_inv_window) simp_all
  qed
  show ?thesis
    using a e ok unfolding saveEditedItem_def
    by (auto split: option.splits prod.splits)
qed

lemma state_inv_undo: "state_inv st \<Longrightarrow> undo st = Some (st', ok) \<Longrightarrow> state_inv st'"
proof -
  assume a: "state_inv st" and u: "undo st = Some (st', ok)"
  have "state_inv (assign_session (json_copy (history st ! n)) (st\<lparr>historyIndex := i\<rparr>))"
    if "n < length (history st)" for n i
    using a that by (intro state_inv_assign) (simp_all add: state_inv_def session_inv_json)
  then show ?thesis
    using a u by (auto simp: undo_def snapshot_at_def split: if_splits)
qed

lemma state_inv_redo: "state_inv st \<Longrightarrow> redo st = Some (st', ok) \<Longrightarrow> state_inv st'"
proof -
  assume a: "state_inv st" and u: "redo st = Some (st', ok)"
  have "state_inv (assign_session (json_copy (history st ! n)) (st\<lparr>historyIndex := i\<rparr>))"
    if "n < length (history st)" for n i
    using a that by (intro state_inv_assign) (simp_all add: state_inv_def session_inv_json)
  then show ?thesis
    using a u by (auto simp: redo_def snapshot_at_def split: if_splits)
qed

lemma state_inv_new: "state_inv st \<Longrightarrow> state_inv (startNewSession now st)"
  unfolding startNewSession_def by (rule state_inv_assign) (simp_all add: session_inv_def)

lemma state_inv_migrate:
  "now \<noteq> [] \<Longrightarrow> state_inv st \<Longrightarrow> state_inv (markExistingBoxesAsCompleted now st)"
proof -
  assume n: "now \<noteq> []" and a: "state_inv st"
  have "session_inv ((currentSession st)\<lparr>boxes := map (\<lambda>(k, b). (k, mark_box now b)) (boxes (currentSession st))\<rparr>)"
    using a n by (simp add: state_inv_def session_inv_all all_inv_map box_inv_mark)
  then have "state_inv (st\<lparr>currentSession :=
      (currentSession st)\<lparr>boxes := map (\<lambda>(k, b). (k, mark_box now b)) (boxes (currentSession st))\<rparr>\<rparr>)"
    using a by (intro state_inv_module)
  then show ?thesis using a by (simp add: markExistingBoxesAsCompleted_def)
qed

lemma state_inv_load:
  assumes "state_inv st" "now \<noteq> []" "data_inv d"
  shows "state_inv (fst (loadSession now d st))"
proof (cases d)
  case NoData
  then show ?thesis using assms(1) by (simp add: loadSession_def state_inv_new)
next
  case (Unreadable b)
  then show ?thesis
    using assms(1,3) by (auto simp: loadSession_def data_inv_def state_inv_assign split: option.splits)
next
  case (StoredSession sid started bs)
  have r: "session_inv \<lparr>session_id = sid, startedAt = started,
      boxes = map (\<lambda>(boxKey, boxData). (boxKey, ensureBoxDataShape boxData)) rs\<rparr>"
    if "bs = Some rs" for rs
    using assms(3) that
    by (auto simp: StoredSession data_inv_def session_inv_def list_all_iff box_inv_repaired)
  have e: "session_inv \<lparr>session_id = None, startedAt = Some now, boxes = []\<rparr>"
    by (simp add: session_inv_def)
  show ?thesis
    using assms(1,2) r e
    by (auto simp: StoredSession loadSession_def Let_def split: option.splits
        intro!: state_inv_migrate state_inv_assign session_inv_normalize)
qed

lemma app_reachable_inv: "app_reachable st \<Longrightarrow> state_inv st"
proof (induction rule: app_reachable.induct)
  case (app_start st)
  then show ?case by (simp add: state_inv_def session_inv_def window_session_def)
next
  case (app_load st now d)
  then show ?case by (simp add: state_inv_load)
next
  case (app_new st now)
  then show ?case by (simp add: state_inv_new)
next
  case (app_select st cb ed)
  then show ?case by simp
next
  case (app_switch st boxNumber)
  then show ?case by (simp add: state_inv_switch)
next
  case (app_toggle st now boxNumber)
  then show ?case by (simp add: state_inv_toggle)
next
  case (app_add st itemName now fresh ctx st')
  then show ?case by (auto intro: state_inv_add(1))
next
  case (app_add_throw st itemName now fresh ctx e st')
  then show ?case by (auto intro: state_inv_add(2))
next
  case (app_delete st boxNumber itemId)
  then show ?case by (simp add: state_inv_delete)
next
  case (app_secondary st inputValue)
  then show ?case by (simp add: state_inv_save_secondary)
next
  case (app_secondary_set st v)
  then show ?case by (simp add: state_inv_secondary)
next
  case (app_edit_start st boxNumber itemId st')
  then show ?case by (auto intro: state_inv_edit_start(1))
next
  case (app_edit_throw st boxNumber itemId e st')
  then show ?case by (auto intro: state_inv_edit_start(2))
next
  case (app_edit st newName st')
  then show ?case by (auto intro: state_inv_edit)
next
  case (app_record st)
  then show ?case by (simp add: state_inv_save)
next
  case (app_undo st st' ok)
  then show ?case by (auto intro: state_inv_undo)
next
  case (app_redo st st' ok)
  then show ?case by (auto intro: state_inv_redo)
qed

lemma canon_1: "canon ''1'' = ''BOX001''"
  by (simp add: canon_def key_str_def box_keys)

lemma toggle_box:
  assumes "map_of (boxes (window_session st)) (canon boxNumber) = Some box"
  shows "map_of (boxes (window_session (toggleBoxComplete now boxNumber st))) k' =
     (if k' = canon boxNumber
      then Some (box\<lparr>completed := \<not> completed box,
                     completedAt := (if completed box then None else Some now)\<rparr>)
      else map_of (boxes (window_session st)) k')"
  using assms by (simp add: toggleBoxComplete_def canon_def map_of_obj_set)

text \<open>
  C5, as amended. In every state that the application reaches from its start through
  its operations with ASCII texts, where every load reads stored records that have a
  non-empty completion time exactly when they are marked completed, each record of the
  session of \<open>data.js\<close>, of the exported session and of the history has a completion time
  if and only if it is completed. The shape repair does not establish this: the repaired
  record satisfies it exactly when the stored record does. \<open>toggleBoxComplete\<close> flips
  \<open>completed\<close> of the addressed box of the exported session, sets the time on the way to
  completed and clears it on the way back, and leaves the other boxes alone; it does
  nothing for a location that does not exist.
\<close>

theorem completedAt_iff_completed:
  "(app_reachable st \<and>
    ((k, b) \<in> set (boxes (currentSession st)) \<or> (k, b) \<in> set (boxes (window_session st)) \<or>
     (\<exists>h \<in> set (history st). (k, b) \<in> set (boxes h))) \<longrightarrow>
      (completedAt b \<noteq> None) = completed b) \<and>
   ((completedAt (ensureBoxDataShape r) \<noteq> None) = completed (ensureBoxDataShape r)) = stored_inv r \<and>
   (ascii boxNumber \<and> map_of (boxes (window_session st)) (canon boxNumber) = Some box \<longrightarrow>
      map_of (boxes (window_session (toggleBoxComplete now boxNumber st))) (canon boxNumber) =
        Some (box\<lparr>completed := \<not> completed box,
                   completedAt := (if completed box then None else Some now)\<rparr>) \<and>
      (\<forall>k'. k' \<noteq> canon boxNumber \<longrightarrow>
         map_of (boxes (window_session (toggleBoxComplete now boxNumber st))) k' =
         map_of (boxes (window_session st)) k')) \<and>
   (ascii boxNumber \<and> map_of (boxes (window_session st)) (canon boxNumber) = None \<longrightarrow>
      toggleBoxComplete now boxNumber st = st)"
proof (intro conjI impI)
  assume a: "app_reachable st \<and>
    ((k, b) \<in> set (boxes (currentSession st)) \<or> (k, b) \<in> set (boxes (window_session st)) \<or>
     (\<exists>h \<in> set (history st). (k, b) \<in> set (boxes h)))"
  then have "state_inv st" by (intro app_reachable_inv) simp
  then have "box_inv b"
    using a by (auto simp: state_inv_def session_inv_all all_inv_def)
  then show "(completedAt b \<noteq> None) = completed b"
    by (auto simp: box_inv_def truthy_def split: if_splits option.splits)
next
  show "((completedAt (ensureBoxDataShape r) \<noteq> None) = completed (ensureBoxDataShape r)) = stored_inv r"
    by (cases r) (auto simp: ensureBoxDataShape_def stored_inv_def truthy_def createEmptyBoxData_def
        split: option.splits)
next
  assume a: "ascii boxNumber \<and> map_of (boxes (window_session st)) (canon boxNumber) = Some box"
  then have m: "map_of (boxes (window_session st)) (canon boxNumber) = Some box" by simp
  show "map_of (boxes (window_session (toggleBoxComplete now boxNumber st))) (canon boxNumber) =
        Some (box\<lparr>completed := \<not> completed box,
                   completedAt := (if completed box then None else Some now)\<rparr>)"
    by (simp add: toggle_box[OF m])
  show "\<forall>k'. k' \<noteq> canon boxNumber \<longrightarrow>
         map_of (boxes (window_session (toggleBoxComplete now boxNumber st))) k' =
         map_of (boxes (window_session st)) k'"
    by (simp add: toggle_box[OF m])
next
  assume "ascii boxNumber \<and> map_of (boxes (window_session st)) (canon boxNumber) = None"
  then show "toggleBoxComplete now boxNumber st = st"
    by (simp add: toggleBoxComplete_def canon_def)
qed

lemma canon_box_1: "canon ''box 1'' = ''BOX001''" "canon ''BOX001'' = ''BOX001''"
  by (simp_all add: canon_def key_str_def norm_defs char_defs to_number_def digit_val_def
      digits_value_def parseInt10_def digit_char_def number_toString_def decimal.simps padStart3_simps)

lemma pen_normal: "normalize_item item_pen = item_pen"
  by (simp add: normalize_item_def item_pen_def pen_parse gt1_def falsy_qty_def)

text \<open>Loading \<open>stored_example\<close> at the start: the two records are repaired and merged under
  \<open>BOX001\<close>; the merged record is completed already, so the migration leaves it.\<close>

lemma load_example:
  "loadSession now stored_example initial_state =
     (initial_state\<lparr>currentSession :=
         \<lparr>session_id = Some ''session-1'', startedAt = Some ''2023-05-01T08:00:00.000Z'',
          boxes = [(''BOX001'', \<lparr>items = [item_pen], completed = True,
                     completedAt = Some ''2023-05-05T09:30:00.000Z'', secondaryLocation = None\<rparr>)]\<rparr>,
        exportedSession := Some empty_session, migrationDone := True\<rparr>, True)"
  by (simp add: loadSession_def stored_example_def Let_def ensureBoxDataShape_def truthy_def
      normalizeSessionBoxes_def canon_box_1[unfolded canon_def] first_box_def merge_box_def
      as_stored_def obj_set_def normalizeItemQuantities_def pen_normal assign_session_def
      window_session_def initial_state_def markExistingBoxesAsCompleted_def mark_box_def)

lemma load_untimed:
  "loadSession now stored_untimed initial_state =
     (initial_state\<lparr>currentSession :=
         \<lparr>session_id = Some ''session-1'', startedAt = Some ''2023-05-01T08:00:00.000Z'',
          boxes = [(''BOX001'', createEmptyBoxData\<lparr>completed := True\<rparr>)]\<rparr>,
        exportedSession := Some empty_session, migrationDone := True\<rparr>, True)"
  by (simp add: loadSession_def stored_untimed_def Let_def ensureBoxDataShape_def truthy_def
      normalizeSessionBoxes_def canon_box_1[unfolded canon_def] first_box_def
      obj_set_def normalizeItemQuantities_def assign_session_def createEmptyBoxData_def
      as_stored_def window_session_def initial_state_def markExistingBoxesAsCompleted_def
      mark_box_def)

lemma initial_reachable: "app_reachable initial_state"
  by (rule app_start) (simp_all add: initial_state_def empty_session_def)

theorem completedAt_iff_completed_witness:
  "app_reachable (fst (loadSession ''2024-01-01T00:00:00.000Z'' stored_example initial_state)) \<and>
   (''BOX001'', \<lparr>items = [item_pen], completed = True,
       completedAt = Some ''2023-05-05T09:30:00.000Z'', secondaryLocation = None\<rparr>)
     \<in> set (boxes (currentSession (fst (loadSession ''2024-01-01T00:00:00.000Z'' stored_example initial_state)))) \<and>
   (completedAt \<lparr>items = [item_pen], completed = True,
       completedAt = Some ''2023-05-05T09:30:00.000Z'', secondaryLocation = None\<rparr> \<noteq> None)
     = completed \<lparr>items = [item_pen], completed = True,
       completedAt = Some ''2023-05-05T09:30:00.000Z'', secondaryLocation = None\<rparr> \<and>
   stored_inv (StoredBox (Some [item_pen]) None None None) \<and>
   \<not> stored_inv (StoredBox (Some []) (Some True) None None) \<and>
   ascii ''1'' \<and>
   map_of (boxes (window_session example_state)) (canon ''1'') = Some box_pen \<and>
   map_of (boxes (window_session (toggleBoxComplete ''2024-01-01'' ''1'' example_state))) (canon ''1'') =
     Some (box_pen\<lparr>completed := True, completedAt := Some ''2024-01-01''\<rparr>) \<and>
   map_of (boxes (window_session (toggleBoxComplete ''2024-01-01'' ''1'' example_state))) ''BOX002'' =
     Some box_cup \<and>
   map_of (boxes (window_session undone_state)) (canon ''1'')
     = Some (box_pen\<lparr>items := [item_pen, item_cup]\<rparr>) \<and>
   map_of (boxes (window_session (toggleBoxComplete ''2024-01-01'' ''1'' undone_state))) (canon ''1'') =
     Some (box_pen\<lparr>items := [item_pen, item_cup], completed := True, completedAt := Some ''2024-01-01''\<rparr>) \<and>
   map_of (boxes (window_session initial_state)) (canon ''1'') = None \<and>
   toggleBoxComplete ''2024-01-01'' ''1'' initial_state = initial_state"
proof -
  let ?now = "''2024-01-01T00:00:00.000Z''"
  let ?b = "\<lparr>items = [item_pen], completed = True,
       completedAt = Some ''2023-05-05T09:30:00.000Z'', secondaryLocation = None\<rparr>"
  have d: "ascii_data stored_example" "data_inv stored_example"
    by (simp_all add: ascii_data_def data_inv_def stored_example_def stored_inv_def truthy_def
        ascii_def ascii_items_def item_pen_def)
  have r: "app_reachable (fst (loadSession ?now stored_example initial_state))"
    using initial_reachable _ d by (rule app_load) simp
  have m: "(''BOX001'', ?b) \<in> set (boxes (currentSession (fst (loadSession ?now stored_example initial_state))))"
    by (simp add: load_example)
  have si: "stored_inv (StoredBox (Some [item_pen]) None None None)"
    "\<not> stored_inv (StoredBox (Some []) (Some True) None None)"
    by (simp_all add: stored_inv_def truthy_def)
  have as: "ascii ''1''" by (simp add: ascii_def)
  have e: "map_of (boxes (window_session example_state)) (canon ''1'') = Some box_pen"
    "map_of (boxes (window_session initial_state)) (canon ''1'') = None"
    "map_of (boxes (window_session undone_state)) (canon ''1'')
       = Some (box_pen\<lparr>items := [item_pen, item_cup]\<rparr>)"
    "map_of (boxes (window_session example_state)) ''BOX002'' = Some box_cup"
    "completed box_pen = False"
    by (simp_all add: canon_1 example_state_def initial_state_def empty_session_def undone_state_def
        pen_cup_session_def window_session_def box_pen_def)
  note t1 = completedAt_iff_completed [where st="fst (loadSession ?now stored_example initial_state)"
      and k="''BOX001''" and b="?b", THEN conjunct1]
  note t2 = completedAt_iff_completed [where st=example_state and boxNumber="''1''" and box=box_pen
      and now="''2024-01-01''", THEN conjunct2, THEN conjunct2, THEN conjunct1]
  note t3 = completedAt_iff_completed [where st=undone_state and boxNumber="''1''"
      and box="box_pen\<lparr>items := [item_pen, item_cup]\<rparr>"
      and now="''2024-01-01''", THEN conjunct2, THEN conjunct2, THEN conjunct1]
  note t4 = completedAt_iff_completed [where st=initial_state and boxNumber="''1''"
      and now="''2024-01-01''", THEN conjunct2, THEN conjunct2, THEN conjunct2]
  have w1: "(completedAt ?b \<noteq> None) = completed ?b" using t1 r m by blast
  have w2: "map_of (boxes (window_session (toggleBoxComplete ''2024-01-01'' ''1'' example_state))) (canon ''1'') =
     Some (box_pen\<lparr>completed := True, completedAt := Some ''2024-01-01''\<rparr>)"
    "map_of (boxes (window_session (toggleBoxComplete ''2024-01-01'' ''1'' example_state))) ''BOX002'' =
     Some box_cup"
    using t2 as e by (simp_all add: canon_1)
  have w3: "map_of (boxes (window_session (toggleBoxComplete ''2024-01-01'' ''1'' undone_state))) (canon ''1'') =
     Some (box_pen\<lparr>items := [item_pen, item_cup], completed := True, completedAt := Some ''2024-01-01''\<rparr>)"
    using t3 as e by simp
  have w4: "toggleBoxComplete ''2024-01-01'' ''1'' initial_state = initial_state"
    using t4 as e by simp
  show ?thesis using r m w1 si as e(1,2,3) w2 w3 w4 by simp
qed

text \<open>
  The claim as worded (every record reachable through the shape repair on load) fails:
  the stored record below is marked completed and has no completion time; after
  \<open>loadSession\<close> at the start of the application (repair, key normalization and
  migration) the session has it as it was stored.
\<close>

theorem loadSession_untimed_counterexample:
  "ascii_data stored_untimed \<and>
   boxes (currentSession (fst (loadSession ''2024-01-01T00:00:00.000Z'' stored_untimed initial_state)))
     = [(''BOX001'', createEmptyBoxData\<lparr>completed := True\<rparr>)] \<and>
   completed (createEmptyBoxData\<lparr>completed := True\<rparr>) \<and>
   completedAt (createEmptyBoxData\<lparr>completed := True\<rparr>) = None \<and>
   ensureBoxDataShape (StoredBox (Some []) (Some True) None None)
     = createEmptyBoxData\<lparr>completed := True\<rparr>"
proof -
  have "ascii_data stored_untimed"
    by (simp add: ascii_data_def stored_untimed_def ascii_def ascii_items_def)
  then show ?thesis
    by (simp add: load_untimed) (simp add: createEmptyBoxData_def ensureBoxDataShape_def truthy_def)
qed

section \<open>Key normalisation and merging of a session\<close>

lemma loop_lookup:
  "map_of (normalize_loop bs acc) c = foldl merge_step (map_of acc c) (group_of c bs)"
proof (induction bs arbitrary: acc)
  case Nil
  then show ?case by (simp add: group_of_def)
next
  case (Cons kb bs)
  obtain k b where kb: "kb = (k, b)" by (cases kb) auto
  let ?acc' = "case map_of acc (canon k) of
              Some existing \<Rightarrow> obj_set acc (canon k) (merge_box existing (ensureBoxDataShape (as_stored b)))
            | None \<Rightarrow> obj_set acc (canon k) (first_box (ensureBoxDataShape (as_stored b)))"
  have step: "normalize_loop (kb # bs) acc = normalize_loop bs ?acc'"
    unfolding canon_def by (simp add: kb Let_def)
  have l: "map_of ?acc' c = (if canon k = c then merge_step (map_of acc c) b else map_of acc c)"
    by (auto simp: map_of_obj_set merge_step_def split: option.splits)
  show ?case
    unfolding step Cons.IH l by (simp add: group_of_def kb)
qed

lemma quantities_lookup:
  "map_of (normalizeItemQuantities xs) c =
     map_option (\<lambda>b. b\<lparr>items := map normalize_item (items b)\<rparr>) (map_of xs c)"
  unfolding normalizeItemQuantities_def by (induction xs) auto

lemma session_lookup:
  "map_of (boxes (normalizeSessionBoxes s)) c =
     map_option (\<lambda>b. b\<lparr>items := map normalize_item (items b)\<rparr>) (merge_all (group_of c (boxes s)))"
  by (simp add: normalizeSessionBoxes_def quantities_lookup loop_lookup merge_all_def)

text \<open>Fields of a merged record.\<close>

lemma merge_step_Some: "foldl merge_step (Some e) g = Some (foldl (\<lambda>e b. merge_box e (ensureBoxDataShape (as_stored b))) e g)"
  by (induction g arbitrary: e) (simp_all add: merge_step_def)

lemma first_truthy_Cons:
  "first_truthy (v # vs) = (if truthy v then v else first_truthy vs)"
  by (simp add: first_truthy_def)

lemma merge_box_fields:
  "items (merge_box e s) = items e @ items s"
  "completed (merge_box e s) = (completed e \<or> completed s)"
  "secondaryLocation (merge_box e s) =
     (if truthy (secondaryLocation s) \<and> \<not> truthy (secondaryLocation e) then secondaryLocation s
      else secondaryLocation e)"
  by (auto simp: merge_box_def Let_def shape_stored)

lemma merge_box_completedAt:
  assumes "box_inv e" "box_inv s"
  shows "completedAt (merge_box e s) = (if truthy (completedAt e) then completedAt e else completedAt s)"
  using assms
  by (auto simp: merge_box_def Let_def shape_stored box_inv_def truthy_def split: if_splits)

lemma merged_plain:
  assumes "tidy (secondaryLocation e)"
  shows "items (foldl (\<lambda>e b. merge_box e (ensureBoxDataShape (as_stored b))) e g) = items e @ concat (map items g)"
    and "completed (foldl (\<lambda>e b. merge_box e (ensureBoxDataShape (as_stored b))) e g) = (completed e \<or> list_ex completed g)"
    and "secondaryLocation (foldl (\<lambda>e b. merge_box e (ensureBoxDataShape (as_stored b))) e g) =
           (if truthy (secondaryLocation e) then secondaryLocation e
            else first_truthy (map secondaryLocation g))"
  using assms
proof (induction g arbitrary: e)
  case Nil
  {
    case 1 show ?case by simp
  next
    case 2 show ?case by simp
  next
    case 3
    then show ?case by (auto simp: first_truthy_def tidy_def)
  }
next
  case (Cons b g)
  have t': "tidy (secondaryLocation (merge_box e (ensureBoxDataShape (as_stored b))))"
    if "tidy (secondaryLocation e)" for e
    using that by (auto simp: merge_box_fields tidy_def)
  {
    case 1
    show ?case using Cons.IH(1)[OF t'[OF 1]] by (simp add: merge_box_fields)
  next
    case 2
    show ?case using Cons.IH(2)[OF t'[OF 2]] by (auto simp: merge_box_fields)
  next
    case 3
    show ?case
      using Cons.IH(3)[OF t'[OF 3]] by (auto simp: merge_box_fields first_truthy_Cons)
  }
qed

lemma merged_completedAt:
  assumes "box_inv e" "list_all box_inv g"
  shows "completedAt (foldl (\<lambda>e b. merge_box e (ensureBoxDataShape (as_stored b))) e g) =
           (if truthy (completedAt e) then completedAt e else first_truthy (map completedAt g))"
  using assms
proof (induction g arbitrary: e)
  case Nil
  then show ?case by (auto simp: first_truthy_def box_inv_def split: if_splits)
next
  case (Cons b g)
  let ?e' = "merge_box e (ensureBoxDataShape (as_stored b))"
  have b: "box_inv b" and g: "list_all box_inv g" using Cons.prems(2) by simp_all
  have sb: "box_inv (ensureBoxDataShape (as_stored b))" using b by (rule box_inv_shape)
  have e': "box_inv ?e'" using Cons.prems(1) sb by (rule box_inv_merge)
  have cb: "completedAt (ensureBoxDataShape (as_stored b)) = completedAt b"
    using b by (auto simp: shape_stored box_inv_def truthy_def split: if_splits)
  have ca: "completedAt ?e' = (if truthy (completedAt e) then completedAt e else completedAt b)"
    using merge_box_completedAt[OF Cons.prems(1) sb] by (simp add: cb)
  have tb: "\<not> truthy (completedAt b) \<Longrightarrow> completedAt b = None"
    using b by (auto simp: box_inv_def split: if_splits)
  show ?case
    using Cons.IH[OF e' g] ca tb by (auto simp: first_truthy_Cons truthy_def)
qed

lemma clean_fixed: "clean b \<Longrightarrow> first_box (ensureBoxDataShape (as_stored b)) = b"
  by (auto simp: clean_def tidy_def first_box_def shape_stored truthy_def)

lemma clean_first: "clean (first_box (ensureBoxDataShape (as_stored b)))"
  by (auto simp: clean_def tidy_def first_box_def shape_stored)

lemma clean_merge: "clean e \<Longrightarrow> clean (merge_box e (ensureBoxDataShape (as_stored s)))"
  by (auto simp: clean_def tidy_def merge_box_def Let_def shape_stored)

lemma keys_obj_set:
  "map fst (obj_set bs k v) = (if k \<in> fst ` set bs then map fst bs else map fst bs @ [k])"
proof -
  have "map fst (map (\<lambda>(k', b). if k' = k then (k', v) else (k', b)) bs) = map fst bs"
    by (induction bs) auto
  then show ?thesis by (simp add: obj_set_def)
qed

lemma values_obj_set:
  "(k', b) \<in> set (obj_set bs k v) \<Longrightarrow> (k', b) \<in> set bs \<or> b = v"
  by (auto simp: obj_set_def split: if_splits)

lemma loop_step:
  "normalize_loop ((k, b) # bs) acc =
     normalize_loop bs (obj_set acc (canon k)
       (case map_of acc (canon k) of
          Some existing \<Rightarrow> merge_box existing (ensureBoxDataShape (as_stored b))
        | None \<Rightarrow> first_box (ensureBoxDataShape (as_stored b))))"
  unfolding canon_def by (simp add: Let_def split: option.splits)

lemma loop_clean:
  "\<forall>(k, b) \<in> set acc. clean b \<Longrightarrow> \<forall>(k, b) \<in> set (normalize_loop bs acc). clean b"
proof (induction bs arbitrary: acc)
  case Nil
  then show ?case by simp
next
  case (Cons kb bs)
  obtain k b where kb: "kb = (k, b)" by (cases kb) auto
  let ?v = "case map_of acc (canon k) of
          Some existing \<Rightarrow> merge_box existing (ensureBoxDataShape (as_stored b))
        | None \<Rightarrow> first_box (ensureBoxDataShape (as_stored b))"
  have "clean ?v"
    using Cons.prems by (auto split: option.splits intro!: clean_first clean_merge dest!: map_of_SomeD)
  then have "\<forall>(k', b') \<in> set (obj_set acc (canon k) ?v). clean b'"
    using Cons.prems by (auto dest!: values_obj_set)
  then show ?case unfolding kb loop_step by (rule Cons.IH)
qed

lemma loop_keys:
  "fst ` set (normalize_loop bs acc) = fst ` set acc \<union> canon ` fst ` set bs"
proof (induction bs arbitrary: acc)
  case Nil
  then show ?case by simp
next
  case (Cons kb bs)
  obtain k b where kb: "kb = (k, b)" by (cases kb) auto
  have "fst ` set (obj_set acc (canon k) v) = insert (canon k) (fst ` set acc)" for v
    using keys_obj_set[of acc "canon k" v] by (metis (no_types, lifting) insert_absorb list.set_map
        list.simps(15) append_Nil2 set_append Un_insert_right sup_bot.right_neutral list.set(1))
  then show ?case unfolding kb loop_step Cons.IH by auto
qed

lemma loop_distinct:
  "distinct (map fst acc) \<Longrightarrow> distinct (map fst (normalize_loop bs acc))"
proof (induction bs arbitrary: acc)
  case Nil
  then show ?case by simp
next
  case (Cons kb bs)
  obtain k b where kb: "kb = (k, b)" by (cases kb) auto
  have "distinct (map fst (obj_set acc (canon k) v))" for v
    using Cons.prems by (simp add: keys_obj_set)
  then show ?case unfolding kb loop_step by (rule Cons.IH)
qed

lemma loop_fixed:
  assumes "distinct (map fst xs)" "\<forall>(k, b) \<in> set xs. canon k = k \<and> clean b"
    "fst ` set xs \<inter> fst ` set acc = {}"
  shows "normalize_loop xs acc = acc @ xs"
  using assms
proof (induction xs arbitrary: acc)
  case Nil
  then show ?case by simp
next
  case (Cons kb xs)
  obtain k b where kb: "kb = (k, b)" by (cases kb) auto
  have ck: "canon k = k" and cb: "clean b" using Cons.prems(2) by (auto simp: kb)
  have nk: "k \<notin> fst ` set acc" using Cons.prems(3) by (auto simp: kb)
  then have m: "map_of acc k = None" by (simp add: map_of_eq_None_iff)
  have s: "obj_set acc k (first_box (ensureBoxDataShape (as_stored b))) = acc @ [(k, b)]"
    using nk cb by (simp add: obj_set_def clean_fixed)
  have "normalize_loop xs (acc @ [(k, b)]) = (acc @ [(k, b)]) @ xs"
  proof (rule Cons.IH)
    show "distinct (map fst xs)" using Cons.prems(1) by simp
    show "\<forall>(k, b) \<in> set xs. canon k = k \<and> clean b" using Cons.prems(2) by simp
    show "fst ` set xs \<inter> fst ` set (acc @ [(k, b)]) = {}"
      using Cons.prems(1,3) by (auto simp: kb)
  qed
  then show ?case unfolding kb loop_step ck m by (simp add: s)
qed

lemma canon_canon:
  assumes "good_key k"
  shows "canon (canon k) = canon k"
proof -
  from assms have nb: "\<exists>c \<in> set k. \<not> is_space c" and pl: "plain_box_number k"
    by (auto simp: good_key_def list_all_iff)
  then have "k \<noteq> []" by auto
  then obtain c where c: "normalizeBoxNumber (Some k) = Some c"
    using normalize_Some by blast
  have "normalizeBoxNumber (normalizeBoxNumber (Some k)) = normalizeBoxNumber (Some k)"
    using nb pl by (rule normalize_idempotent_plain)
  then have "normalizeBoxNumber (Some c) = Some c" by (simp add: c)
  then show ?thesis by (simp add: canon_def c key_str_def)
qed

lemma gt1_cases: "gt1 q \<Longrightarrow> q \<noteq> Fin 1 \<and> q \<noteq> Fin 0"
  by (auto simp: gt1_def)

lemma normalize_item_idem: "normalize_item (normalize_item i) = normalize_item i"
proof -
  obtain pn pq where p: "parseQuantity (name i) = (pn, pq)" by (cases "parseQuantity (name i)") auto
  show ?thesis
  proof (cases "qty i = Some (Fin 1) \<or> falsy_qty (qty i)")
    case False
    then show ?thesis by (simp add: normalize_item_def)
  next
    case True
    show ?thesis
    proof (cases "gt1 pq")
      case g: True
      have "normalize_item i = i\<lparr>name := pn, qty := Some pq\<rparr>"
        using True g p by (simp add: normalize_item_def)
      moreover have "normalize_item (i\<lparr>name := pn, qty := Some pq\<rparr>) = i\<lparr>name := pn, qty := Some pq\<rparr>"
        using gt1_cases[OF g] by (simp add: normalize_item_def falsy_qty_def)
      ultimately show ?thesis by simp
    next
      case g: False
      show ?thesis
      proof (cases "falsy_qty (qty i)")
        case f: True
        have "normalize_item i = i\<lparr>qty := Some (Fin 1)\<rparr>"
          using True g p f by (simp add: normalize_item_def)
        moreover have "normalize_item (i\<lparr>qty := Some (Fin 1)\<rparr>) = i\<lparr>qty := Some (Fin 1)\<rparr>"
          using g p by (simp add: normalize_item_def falsy_qty_def)
        ultimately show ?thesis by simp
      next
        case f: False
        have "normalize_item i = i" using True g p f by (simp add: normalize_item_def)
        then show ?thesis by simp
      qed
    qed
  qed
qed

lemma quantities_idem: "normalizeItemQuantities (normalizeItemQuantities xs) = normalizeItemQuantities xs"
  by (induction xs) (auto simp: normalizeItemQuantities_def normalize_item_idem)

lemma quantities_keys: "map fst (normalizeItemQuantities xs) = map fst xs"
  by (induction xs) (auto simp: normalizeItemQuantities_def)

lemma quantities_clean:
  "\<forall>(k, b) \<in> set xs. P k \<and> clean b \<Longrightarrow> \<forall>(k, b) \<in> set (normalizeItemQuantities xs). P k \<and> clean b"
  by (auto simp: normalizeItemQuantities_def clean_def)

lemma normalize_twice:
  assumes "list_all (\<lambda>(k, b). good_key k) (boxes s)"
  shows "normalizeSessionBoxes (normalizeSessionBoxes s) = normalizeSessionBoxes s"
proof -
  let ?L = "normalize_loop (boxes s) []"
  let ?bs1 = "normalizeItemQuantities ?L"
  have keys: "fst ` set ?L = canon ` fst ` set (boxes s)" by (simp add: loop_keys)
  have cl: "\<forall>(k, b) \<in> set ?L. clean b" by (rule loop_clean) simp
  have ck: "\<forall>(k, b) \<in> set ?L. canon k = k \<and> clean b"
  proof (clarify)
    fix k b assume kb: "(k, b) \<in> set ?L"
    then have "k \<in> canon ` fst ` set (boxes s)" using keys by force
    then obtain k0 where k0: "k0 \<in> fst ` set (boxes s)" "k = canon k0" by blast
    then have "good_key k0" using assms by (auto simp: list_all_iff)
    then have "canon k = k" using k0(2) by (simp add: canon_canon)
    then show "canon k = k \<and> clean b" using cl kb by auto
  qed
  have ck1: "\<forall>(k, b) \<in> set ?bs1. canon k = k \<and> clean b"
    using ck by (rule quantities_clean)
  have d1: "distinct (map fst ?bs1)"
    by (simp add: quantities_keys loop_distinct)
  have "normalize_loop ?bs1 [] = [] @ ?bs1"
    using d1 ck1 by (rule loop_fixed) simp
  then show ?thesis
    by (simp add: normalizeSessionBoxes_def quantities_idem)
qed

lemma merge_all_fields:
  "\<exists>m. merge_all (b # g) = Some m \<and> items m = concat (map items (b # g)) \<and>
       completed m = list_ex completed (b # g) \<and>
       secondaryLocation m = first_truthy (map secondaryLocation (b # g)) \<and>
       (list_all box_inv (b # g) \<longrightarrow> completedAt m = first_truthy (map completedAt (b # g)))"
proof -
  let ?e = "first_box (ensureBoxDataShape (as_stored b))"
  let ?m = "foldl (\<lambda>e b. merge_box e (ensureBoxDataShape (as_stored b))) ?e g"
  have t: "tidy (secondaryLocation ?e)" by (auto simp: first_box_def tidy_def)
  have m: "merge_all (b # g) = Some ?m"
    by (simp add: merge_all_def merge_step_def[of None] merge_step_Some)
  have ie: "items ?e = items b" "completed ?e = completed b"
    by (simp_all add: first_box_def)
  have ce: "completedAt ?e = (if truthy (completedAt b) then completedAt b else None)"
    by (simp add: first_box_def shape_stored)
  have se: "secondaryLocation ?e = (if truthy (secondaryLocation b) then secondaryLocation b else None)"
    by (simp add: first_box_def)
  have 1: "items ?m = concat (map items (b # g))"
    using merged_plain(1)[OF t] by (simp add: ie)
  have 2: "completed ?m = list_ex completed (b # g)"
    using merged_plain(2)[OF t] by (simp add: ie)
  have 3: "secondaryLocation ?m = first_truthy (map secondaryLocation (b # g))"
    using merged_plain(3)[OF t] by (auto simp: se first_truthy_Cons truthy_def)
  have 4: "completedAt ?m = first_truthy (map completedAt (b # g))" if "list_all box_inv (b # g)"
  proof -
    have b: "box_inv b" and g: "list_all box_inv g" using that by simp_all
    have e: "box_inv ?e" using b by (intro box_inv_first box_inv_shape)
    show ?thesis
      using merged_completedAt[OF e g] by (auto simp: ce first_truthy_Cons truthy_def)
  qed
  show ?thesis using m 1 2 3 4 by blast
qed

text \<open>
  C6, as amended. Running \<open>normalizeSessionBoxes\<close> a second time changes nothing when
  every stored key is ASCII, has a character that is not white space and has a plain box
  number. The record stored under a canonical key is the merge, in the order of
  \<open>Object.entries\<close>, of the records whose keys normalise to it, its item names and
  quantities then normalised. The merge concatenates the item sequences first seen
  first, is completed if one of the records is, and keeps the first secondary location
  that is not empty; for records that have a completion time exactly when completed it
  keeps the completion time of the first record that has one.
\<close>

theorem normalizeSessionBoxes_merge:
  "(ascii_session s \<and> list_all (\<lambda>(k, b). good_key k) (boxes s) \<longrightarrow>
      normalizeSessionBoxes (normalizeSessionBoxes s) = normalizeSessionBoxes s) \<and>
   (ascii_session s \<longrightarrow>
      map_of (boxes (normalizeSessionBoxes s)) c =
        map_option (\<lambda>b. b\<lparr>items := map normalize_item (items b)\<rparr>) (merge_all (group_of c (boxes s)))) \<and>
   (\<exists>m. merge_all (b # g) = Some m \<and> items m = concat (map items (b # g)) \<and>
        completed m = list_ex completed (b # g) \<and>
        secondaryLocation m = first_truthy (map secondaryLocation (b # g)) \<and>
        (list_all box_inv (b # g) \<longrightarrow> completedAt m = first_truthy (map completedAt (b # g))))"
  using normalize_twice[of s] session_lookup[of s c] merge_all_fields[of b g] by blast

lemma canon_examples:
  "canon ''Box42'' = ''BOX042''" "canon ''BOX042'' = ''BOX042''"
  "canon '' '' = []" "canon [] = ''null''"
proof -
  have "normalizeBoxNumber (Some ''Box42'') = Some ''BOX042''"
    by (simp add: norm_defs char_defs num_defs)
  then show "canon ''Box42'' = ''BOX042''" by (simp add: canon_def key_str_def)
  have "normalizeBoxNumber (Some ''BOX042'') = Some ''BOX042''"
    by (simp add: norm_defs char_defs num_defs)
  then show "canon ''BOX042'' = ''BOX042''" by (simp add: canon_def key_str_def)
  have "normalizeBoxNumber (Some '' '') = Some []"
    by (simp add: norm_defs char_defs)
  then show "canon '' '' = []" by (simp add: canon_def key_str_def)
  have "normalizeBoxNumber (Some []) = None"
    by (simp add: norm_defs)
  then show "canon [] = ''null''" by (simp add: canon_def key_str_def)
qed

lemma good_examples: "good_key ''Box42''" "good_key ''BOX042''"
  by (simp_all add: good_key_def plain_box_number_def norm_defs char_defs num_defs)

lemma cup_parse: "parseQuantity ''cup'' = (''cup'', Fin 1)"
  by (simp add: quantity_defs char_defs)

lemma item_examples: "normalize_item item_pen = item_pen" "normalize_item item_cup = item_cup"
  by (simp_all add: normalize_item_def item_pen_def item_cup_def pen_parse cup_parse gt1_def falsy_qty_def)

lemma ascii_examples:
  "ascii_session two_key_session" "ascii_session blank_key_session" "ascii_session stray_session"
  by (simp_all add: ascii_session_def ascii_items_def ascii_def two_key_session_def
      blank_key_session_def stray_session_def box_pen_def box_cup_def item_pen_def item_cup_def
      createEmptyBoxData_def)

text \<open>The keys \<open>Box42\<close> and \<open>BOX042\<close> merge into \<open>BOX042\<close>, the pen before the cup.\<close>

theorem normalizeSessionBoxes_merge_witness:
  "ascii_session two_key_session \<and>
   list_all (\<lambda>(k, b). good_key k) (boxes two_key_session) \<and>
   normalizeSessionBoxes (normalizeSessionBoxes two_key_session) = normalizeSessionBoxes two_key_session \<and>
   group_of ''BOX042'' (boxes two_key_session) =
     [box_pen\<lparr>completed := True, completedAt := Some ''2024-05-01''\<rparr>,
      box_cup\<lparr>completed := True, completedAt := Some ''2023-01-01'', secondaryLocation := Some ''SHELF 2C''\<rparr>] \<and>
   list_all box_inv
     (box_pen\<lparr>completed := True, completedAt := Some ''2024-05-01''\<rparr> #
      [box_cup\<lparr>completed := True, completedAt := Some ''2023-01-01'', secondaryLocation := Some ''SHELF 2C''\<rparr>]) \<and>
   (\<exists>m. merge_all (group_of ''BOX042'' (boxes two_key_session)) = Some m \<and>
      items m = [item_pen, item_cup] \<and> completed m \<and> secondaryLocation m = Some ''SHELF 2C'' \<and>
      completedAt m = Some ''2024-05-01'' \<and>
      map_of (boxes (normalizeSessionBoxes two_key_session)) ''BOX042'' =
        Some (m\<lparr>items := map normalize_item (items m)\<rparr>))"
proof -
  let ?b = "box_pen\<lparr>completed := True, completedAt := Some ''2024-05-01''\<rparr>"
  let ?g = "[box_cup\<lparr>completed := True, completedAt := Some ''2023-01-01'', secondaryLocation := Some ''SHELF 2C''\<rparr>]"
  have gk: "list_all (\<lambda>(k, b). good_key k) (boxes two_key_session)"
    by (simp add: two_key_session_def good_examples)
  have gr: "group_of ''BOX042'' (boxes two_key_session) = ?b # ?g"
    by (simp add: group_of_def two_key_session_def canon_examples)
  have inv: "list_all box_inv (?b # ?g)"
    by (simp add: box_inv_def truthy_def)
  note t = normalizeSessionBoxes_merge [where s=two_key_session and c="''BOX042''" and b="?b" and g="?g"]
  from t inv obtain m where m: "merge_all (?b # ?g) = Some m" "items m = concat (map items (?b # ?g))"
    "completed m = list_ex completed (?b # ?g)"
    "secondaryLocation m = first_truthy (map secondaryLocation (?b # ?g))"
    "completedAt m = first_truthy (map completedAt (?b # ?g))"
    by blast
  have l: "map_of (boxes (normalizeSessionBoxes two_key_session)) ''BOX042'' =
        Some (m\<lparr>items := map normalize_item (items m)\<rparr>)"
    using t ascii_examples(1) by (simp add: gr m(1))
  have f: "items m = [item_pen, item_cup]" "completed m" "secondaryLocation m = Some ''SHELF 2C''"
    "completedAt m = Some ''2024-05-01''"
    using m(2,3,4,5) by (simp_all add: box_pen_def box_cup_def first_truthy_def truthy_def)
  have i: "normalizeSessionBoxes (normalizeSessionBoxes two_key_session) = normalizeSessionBoxes two_key_session"
    using t ascii_examples(1) gk by blast
  show ?thesis
    using ascii_examples(1) gk i gr inv m(1) l f by simp
qed

text \<open>
  The claim as worded fails in three places. A key of white space only is stored under
  the empty key by the first run and under \<open>null\<close> by the second. In the merged record of
  \<open>two_key_session\<close> the completion time is that of the record seen first, the later of
  the two times. In \<open>stray_session\<close> no record is completed and the second has a time:
  the merged record has none.
\<close>

theorem normalizeSessionBoxes_twice_counterexample:
  "ascii_session blank_key_session \<and>
   boxes (normalizeSessionBoxes blank_key_session) = [([], createEmptyBoxData)] \<and>
   boxes (normalizeSessionBoxes (normalizeSessionBoxes blank_key_session)) = [(''null'', createEmptyBoxData)] \<and>
   normalizeSessionBoxes (normalizeSessionBoxes blank_key_session) \<noteq> normalizeSessionBoxes blank_key_session \<and>
   map_option completedAt (map_of (boxes (normalizeSessionBoxes two_key_session)) ''BOX042'')
     = Some (Some ''2024-05-01'') \<and>
   map_of (boxes stray_session) ''Box42'' = Some box_pen \<and>
   map_of (boxes stray_session) ''BOX042'' = Some (box_cup\<lparr>completedAt := Some ''2023-01-01''\<rparr>) \<and>
   completedAt box_pen = None \<and>
   map_option completedAt (map_of (boxes (normalizeSessionBoxes stray_session)) ''BOX042'') = Some None \<and>
   map_option completed (map_of (boxes (normalizeSessionBoxes stray_session)) ''BOX042'') = Some False"
proof -
  have e: "first_box (ensureBoxDataShape (as_stored createEmptyBoxData)) = createEmptyBoxData"
    by (simp add: first_box_def shape_stored createEmptyBoxData_def truthy_def)
  have q: "normalizeItemQuantities [(k, createEmptyBoxData)] = [(k, createEmptyBoxData)]" for k
    by (simp add: normalizeItemQuantities_def createEmptyBoxData_def)
  have 1: "boxes (normalizeSessionBoxes blank_key_session) = [([], createEmptyBoxData)]"
    by (simp add: normalizeSessionBoxes_def blank_key_session_def canon_examples[unfolded canon_def] e q obj_set_def)
  have 2: "boxes (normalizeSessionBoxes (normalizeSessionBoxes blank_key_session)) = [(''null'', createEmptyBoxData)]"
    by (simp add: normalizeSessionBoxes_def[of "normalizeSessionBoxes blank_key_session"] 1
        canon_examples[unfolded canon_def] e q obj_set_def)
  have 3: "normalizeSessionBoxes (normalizeSessionBoxes blank_key_session) \<noteq> normalizeSessionBoxes blank_key_session"
  proof
    assume "normalizeSessionBoxes (normalizeSessionBoxes blank_key_session) = normalizeSessionBoxes blank_key_session"
    then have "boxes (normalizeSessionBoxes (normalizeSessionBoxes blank_key_session)) =
      boxes (normalizeSessionBoxes blank_key_session)" by simp
    then show False unfolding 1 2 by simp
  qed
  have 4: "map_option completedAt (map_of (boxes (normalizeSessionBoxes two_key_session)) ''BOX042'')
     = Some (Some ''2024-05-01'')"
    by (simp add: session_lookup group_of_def two_key_session_def canon_examples merge_all_def merge_step_def
        merge_box_def first_box_def shape_stored truthy_def Let_def)
  have 5: "map_of (boxes stray_session) ''Box42'' = Some box_pen"
    "map_of (boxes stray_session) ''BOX042'' = Some (box_cup\<lparr>completedAt := Some ''2023-01-01''\<rparr>)"
    "completedAt box_pen = None"
    by (simp_all add: stray_session_def box_pen_def)
  have 6: "map_option completedAt (map_of (boxes (normalizeSessionBoxes stray_session)) ''BOX042'') = Some None"
    "map_option completed (map_of (boxes (normalizeSessionBoxes stray_session)) ''BOX042'') = Some False"
    by (simp_all add: normalizeSessionBoxes_def stray_session_def canon_examples[unfolded canon_def]
        obj_set_def merge_box_def first_box_def shape_stored truthy_def Let_def
        normalizeItemQuantities_def box_pen_def box_cup_def)
  show ?thesis using ascii_examples(2) 1 2 3 4 5 6 by simp
qed

section \<open>Properties of the history manager\<close>

lemma json_qty_idem: "json_qty (json_qty q) = json_qty q"
  by (auto simp: json_qty_def split: option.splits number.splits)

lemma json_item_idem: "json_item (json_item i) = json_item i"
  by (simp add: json_item_def json_qty_idem)

lemma json_box_idem: "json_box (json_box b) = json_box b"
  by (simp add: json_box_def json_item_idem)

lemma json_copy_idem: "json_copy (json_copy s) = json_copy s"
  by (simp add: json_copy_def json_box_idem split_def)

lemma max_history_pos: "0 < max_history st"
  by (simp add: max_history_def split: option.splits)

lemma save_step:
  assumes "- 1 \<le> historyIndex st" "historyIndex st < int (length (history st))"
  shows "history (saveStateToHistory st) =
           (let h = take (nat (historyIndex st + 1)) (history st) @ [json_copy (currentSession st)]
            in if max_history st < length h then tl h else h)"
    and "historyIndex (saveStateToHistory st) = int (length (history (saveStateToHistory st))) - 1"
    and "currentSession (saveStateToHistory st) = currentSession st"
  using assms by (auto simp: saveStateToHistory_def slice0_def Let_def)

lemma record_all_full:
  assumes "historyIndex st = int (length (history st)) - 1" "length (history st) \<le> max_history st"
  shows "history (record_all ss st) =
           drop (length (history st) + length ss - max_history st) (history st @ map json_copy ss)
         \<and> historyIndex (record_all ss st) = int (length (history (record_all ss st))) - 1
         \<and> max_history (record_all ss st) = max_history st"
  using assms
proof (induction ss arbitrary: st)
  case Nil
  then show ?case by simp
next
  case (Cons s ss)
  let ?st1 = "saveStateToHistory (st\<lparr>currentSession := s\<rparr>)"
  have h1: "history ?st1 = (if max_history st < Suc (length (history st)) then tl (history st @ [json_copy s]) else history st @ [json_copy s])"
    using Cons.prems by (simp add: saveStateToHistory_def slice0_def Let_def max_history_def)
  have i1: "historyIndex ?st1 = int (length (history ?st1)) - 1"
    using Cons.prems by (simp add: saveStateToHistory_def slice0_def Let_def max_history_def)
  have m1: "max_history ?st1 = max_history st"
    by (simp add: saveStateToHistory_def Let_def max_history_def)
  have l1: "length (history ?st1) \<le> max_history ?st1"
    using Cons.prems max_history_pos[of st] by (simp add: h1 m1)
  from Cons.IH[OF i1 l1] have IH: "history (record_all ss ?st1) =
           drop (length (history ?st1) + length ss - max_history st) (history ?st1 @ map json_copy ss)"
     and IH2: "historyIndex (record_all ss ?st1) = int (length (history (record_all ss ?st1))) - 1"
     and IH3: "max_history (record_all ss ?st1) = max_history st"
    by (simp_all add: m1)
  show ?case
  proof (cases "max_history st < Suc (length (history st))")
    case True
    then have eq: "length (history st) = max_history st" using Cons.prems by simp
    then obtain a list where al: "history st = a # list"
      using max_history_pos[of st] by (cases "history st") auto
    have h1': "history ?st1 = list @ [json_copy s]" using True al by (simp add: h1)
    have len: "Suc (length list) = max_history st" using eq al by simp
    have "history (record_all ss ?st1) = drop (length ss) (list @ json_copy s # map json_copy ss)"
      using IH len[symmetric] by (simp add: h1')
    moreover have "drop (length (history st) + length (s # ss) - max_history st) (history st @ map json_copy (s # ss))
        = drop (length ss) (list @ json_copy s # map json_copy ss)"
      using len[symmetric] by (simp add: al)
    ultimately show ?thesis using IH2 IH3 by simp
  next
    case False
    then have h1': "history ?st1 = history st @ [json_copy s]" by (simp add: h1)
    have "length (history st) + length (s # ss) - max_history st = Suc (length (history st)) + length ss - max_history st"
      by simp
    then show ?thesis using IH IH2 IH3 by (simp add: h1')
  qed
qed

lemma undo_reports_count:
  assumes "0 \<le> historyIndex st" "historyIndex st < int (length (history st))"
  shows "undo_reports n st = Some (replicate (min n (nat (historyIndex st))) True @ replicate (n - nat (historyIndex st)) False)"
  using assms
proof (induction n arbitrary: st)
  case 0
  then show ?case by simp
next
  case (Suc n)
  show ?case
  proof (cases "0 < historyIndex st")
    case True
    let ?st' = "assign_session (json_copy (history st ! nat (historyIndex st - 1)))
                  (st\<lparr>historyIndex := historyIndex st - 1\<rparr>)"
    have u: "undo st = Some (?st', True)"
      using True Suc.prems by (simp add: undo_def snapshot_at_def)
    have f: "historyIndex ?st' = historyIndex st - 1" "history ?st' = history st"
      by (simp_all add: assign_session_def)
    have "undo_reports n ?st' = Some (replicate (min n (nat (historyIndex ?st'))) True @ replicate (n - nat (historyIndex ?st')) False)"
      by (rule Suc.IH) (use True Suc.prems f in simp_all)
    moreover have "nat (historyIndex st) = Suc (nat (historyIndex st - 1))" using True by simp
    ultimately show ?thesis using u True f by simp
  next
    case False
    then have z: "historyIndex st = 0" using Suc.prems by simp
    have u: "undo st = Some (st, False)" using z by (simp add: undo_def)
    have "undo_reports n st = Some (replicate (min n (nat (historyIndex st))) True @ replicate (n - nat (historyIndex st)) False)"
      by (rule Suc.IH) (use Suc.prems in simp_all)
    then show ?thesis using u z by (simp add: replicate_app_Cons_same)
  qed
qed


lemma reachable_inv:
  "reachable st \<Longrightarrow>
     - 1 \<le> historyIndex st \<and> historyIndex st < int (length (history st)) \<and>
     (\<forall>h \<in> set (history st). json_copy h = h)"
proof (induction rule: reachable.induct)
  case (reach_start st)
  then show ?case by simp
next
  case (reach_mutate st st')
  then show ?case by simp
next
  case (reach_record st)
  have "set (tl xs) \<subseteq> set xs" for xs :: "Session list" by (cases xs) auto
  moreover have "set (take n xs) \<subseteq> set xs" for xs :: "Session list" and n by (rule set_take_subset)
  ultimately show ?case
    using reach_record.IH max_history_pos[of st] save_step[of st]
    by (auto simp: Let_def json_copy_idem dest!: in_set_takeD list.set_sel(2)[rotated] split: if_splits)
next
  case (reach_undo st st' ok)
  then show ?case
    by (auto simp: undo_def snapshot_at_def assign_session_def split: if_splits)
next
  case (reach_redo st st' ok)
  then show ?case
    by (auto simp: redo_def snapshot_at_def assign_session_def split: if_splits)
qed

text \<open>
  C7. Recording truncates the entries after the cursor, appends a copy of the live
  session and moves the cursor to the last position; beyond the configured bound the
  oldest entry is dropped. The bound is \<open>window.CONFIG.MAX_HISTORY_SIZE\<close> when that is
  configured and not zero, and 50 otherwise. From the initial state, one recording more
  than the bound leaves as many entries as the bound (the copies of all sessions but the
  first), and of as many calls of undo all but the last succeed, the last reporting a
  no-op: 51 recordings under a bound of 50 leave 50 entries, and undo succeeds 49 times.
\<close>

theorem history_record_bounded:
  "(- 1 \<le> historyIndex st \<and> historyIndex st < int (length (history st)) \<longrightarrow>
      history (saveStateToHistory st) =
        (let h = take (nat (historyIndex st + 1)) (history st) @ [json_copy (currentSession st)]
         in if max_history st < length h then tl h else h) \<and>
      historyIndex (saveStateToHistory st) = int (length (history (saveStateToHistory st))) - 1 \<and>
      currentSession (saveStateToHistory st) = currentSession st) \<and>
   (MAX_HISTORY_SIZE st = None \<longrightarrow> max_history st = 50) \<and>
   (MAX_HISTORY_SIZE st = Some n \<longrightarrow> max_history st = (if n = 0 then 50 else n)) \<and>
   (history st0 = [] \<and> historyIndex st0 = - 1 \<and> length ss = max_history st0 + 1 \<longrightarrow>
      history (record_all ss st0) = map json_copy (tl ss) \<and>
      length (history (record_all ss st0)) = max_history st0 \<and>
      historyIndex (record_all ss st0) = int (max_history st0) - 1 \<and>
      undo_reports (max_history st0) (record_all ss st0)
        = Some (replicate (max_history st0 - 1) True @ [False]))"
proof (intro conjI impI)
  assume a: "- 1 \<le> historyIndex st \<and> historyIndex st < int (length (history st))"
  show "history (saveStateToHistory st) =
        (let h = take (nat (historyIndex st + 1)) (history st) @ [json_copy (currentSession st)]
         in if max_history st < length h then tl h else h)"
    using a by (intro save_step) simp_all
  show "historyIndex (saveStateToHistory st) = int (length (history (saveStateToHistory st))) - 1"
    using a by (intro save_step) simp_all
  show "currentSession (saveStateToHistory st) = currentSession st"
    using a by (intro save_step) simp_all
next
  assume "MAX_HISTORY_SIZE st = None"
  then show "max_history st = 50" by (simp add: max_history_def)
next
  assume "MAX_HISTORY_SIZE st = Some n"
  then show "max_history st = (if n = 0 then 50 else n)" by (simp add: max_history_def)
next
  assume a: "history st0 = [] \<and> historyIndex st0 = - 1 \<and> length ss = max_history st0 + 1"
  have pos: "0 < max_history st0" by (rule max_history_pos)
  have full: "history (record_all ss st0) =
           drop (length (history st0) + length ss - max_history st0) (history st0 @ map json_copy ss)
         \<and> historyIndex (record_all ss st0) = int (length (history (record_all ss st0))) - 1
         \<and> max_history (record_all ss st0) = max_history st0"
    by (rule record_all_full) (use a in simp_all)
  then have h: "history (record_all ss st0) = drop 1 (map json_copy ss)"
    using a by simp
  then show hh: "history (record_all ss st0) = map json_copy (tl ss)"
    by (simp add: drop_Suc map_tl)
  show len: "length (history (record_all ss st0)) = max_history st0"
    using a by (simp add: hh)
  show idx: "historyIndex (record_all ss st0) = int (max_history st0) - 1"
    using full len by simp
  have "undo_reports (max_history st0) (record_all ss st0) =
      Some (replicate (min (max_history st0) (nat (historyIndex (record_all ss st0)))) True @
            replicate (max_history st0 - nat (historyIndex (record_all ss st0))) False)"
    by (rule undo_reports_count) (use pos in \<open>simp_all add: idx len\<close>)
  moreover have "nat (int (max_history st0) - 1) = max_history st0 - 1" by simp
  moreover have "max_history st0 - (max_history st0 - 1) = 1" using pos by simp
  ultimately show "undo_reports (max_history st0) (record_all ss st0)
        = Some (replicate (max_history st0 - 1) True @ [False])"
    by (simp add: idx)
qed

theorem history_record_bounded_witness:
  "(- 1 \<le> historyIndex history_state \<and> historyIndex history_state < int (length (history history_state))) \<and>
   MAX_HISTORY_SIZE history_state = Some 2 \<and> max_history history_state = 2 \<and>
   history history_state = [session_no 0, session_no 1, session_no 2] \<and>
   history (saveStateToHistory history_state) = [session_no 1, two_key_session] \<and>
   historyIndex (saveStateToHistory history_state) = 1 \<and>
   MAX_HISTORY_SIZE initial_state = None \<and> max_history initial_state = 50 \<and>
   history initial_state = [] \<and> historyIndex initial_state = - 1 \<and>
   length (map session_no [0..<51]) = max_history initial_state + 1 \<and>
   history (record_all (map session_no [0..<51]) initial_state) = map session_no [1..<51] \<and>
   length (history (record_all (map session_no [0..<51]) initial_state)) = 50 \<and>
   historyIndex (record_all (map session_no [0..<51]) initial_state) = 49 \<and>
   undo_reports 50 (record_all (map session_no [0..<51]) initial_state)
     = Some (replicate 49 True @ [False])"
proof -
  note t1 = history_record_bounded [where st=history_state and n=2 and ?st0.0=initial_state
      and ss="map session_no [0..<51]"]
  note t2 = history_record_bounded [where st=initial_state and n=2 and ?st0.0=initial_state
      and ss="map session_no [0..<51]"]
  have a: "- 1 \<le> historyIndex history_state \<and> historyIndex history_state < int (length (history history_state))"
    "MAX_HISTORY_SIZE history_state = Some 2"
    "history history_state = [session_no 0, session_no 1, session_no 2]"
    "currentSession history_state = two_key_session"
    "historyIndex history_state = 1"
    by (simp_all add: history_state_def)
  have j: "json_copy two_key_session = two_key_session" "\<And>i. json_copy (session_no i) = session_no i"
    by (simp_all add: json_copy_def two_key_session_def session_no_def json_box_def json_item_def
        json_qty_def box_pen_def box_cup_def item_pen_def item_cup_def)
  have m: "max_history history_state = 2" using t1 a by simp
  have h: "history (saveStateToHistory history_state) = [session_no 1, two_key_session]"
    using t1 a by (simp add: m j Let_def)
  have i: "historyIndex (saveStateToHistory history_state) = 1"
    using t1 a by (simp add: h)
  have b: "MAX_HISTORY_SIZE initial_state = None" "history initial_state = []"
    "historyIndex initial_state = - 1"
    by (simp_all add: initial_state_def)
  have m0: "max_history initial_state = 50" using t2 b by simp
  have l: "length (map session_no [0..<51]) = max_history initial_state + 1" by (simp add: m0)
  have tl: "map json_copy (tl (map session_no [0..<51])) = map session_no [1..<51]"
    by (simp add: j map_tl upt_conv_Cons [of 0 51] del: upt_Suc)
  have r: "history (record_all (map session_no [0..<51]) initial_state) = map session_no [1..<51]"
    "length (history (record_all (map session_no [0..<51]) initial_state)) = 50"
    "historyIndex (record_all (map session_no [0..<51]) initial_state) = 49"
    "undo_reports 50 (record_all (map session_no [0..<51]) initial_state) = Some (replicate 49 True @ [False])"
    using t2 b l tl m0 by simp_all
  show ?thesis using a m h i b m0 l r by blast
qed

text \<open>
  C8. In a reachable state where undo succeeds (cursor above 0) and the live session
  is the snapshot at the cursor, undo followed by redo both succeed and give back the
  state before the undo, live session included: every component is as before, and the
  variable of \<open>data.js\<close> holds a new object that equals the old one (so the exported session
  is now another object, if it was not already). Redo succeeds whenever the cursor is
  below the last position.
\<close>

theorem undo_redo_restores:
  assumes "reachable st"
  shows "(0 < historyIndex st \<and> currentSession st = history st ! nat (historyIndex st) \<longrightarrow>
           (\<exists>st1 st2. undo st = Some (st1, True) \<and> redo st1 = Some (st2, True) \<and>
                      currentSession st2 = currentSession st \<and>
                      st2 = st\<lparr>exportedSession := Some (window_session st)\<rparr> \<and>
                      (exportedSession st \<noteq> None \<longrightarrow> st2 = st))) \<and>
         (historyIndex st < int (length (history st)) - 1 \<longrightarrow> (\<exists>st'. redo st = Some (st', True)))"
proof -
  from reachable_inv[OF assms]
  have lo: "- 1 \<le> historyIndex st" and hi: "historyIndex st < int (length (history st))"
    and clean: "\<forall>h \<in> set (history st). json_copy h = h" by simp_all
  have "\<exists>st1 st2. undo st = Some (st1, True) \<and> redo st1 = Some (st2, True) \<and>
                      currentSession st2 = currentSession st \<and>
                      st2 = st\<lparr>exportedSession := Some (window_session st)\<rparr> \<and>
                      (exportedSession st \<noteq> None \<longrightarrow> st2 = st)"
    if a: "0 < historyIndex st \<and> currentSession st = history st ! nat (historyIndex st)"
  proof -
    let ?st1 = "assign_session (json_copy (history st ! nat (historyIndex st - 1)))
                  (st\<lparr>historyIndex := historyIndex st - 1\<rparr>)"
    let ?st2 = "st\<lparr>exportedSession := Some (window_session st)\<rparr>"
    have u: "undo st = Some (?st1, True)"
      using a hi by (simp add: undo_def snapshot_at_def)
    have "nat (historyIndex st) < length (history st)"
      using a hi by linarith
    then have "history st ! nat (historyIndex st) \<in> set (history st)"
      by (rule nth_mem)
    then have c: "json_copy (history st ! nat (historyIndex st)) = history st ! nat (historyIndex st)"
      using clean by blast
    have a': "history st ! nat (historyIndex st) = currentSession st"
      using a by simp
    have r: "redo ?st1 = Some (?st2, True)"
      using hi c a[THEN conjunct1] unfolding a'
      by (cases "exportedSession st")
        (simp_all add: redo_def snapshot_at_def assign_session_def window_session_def a')
    have e: "?st2 = st" if "exportedSession st \<noteq> None"
      using that by (auto simp: window_session_def)
    have "currentSession ?st2 = currentSession st" by simp
    then show ?thesis
      using u r e by blast
  qed
  moreover have "historyIndex st < int (length (history st)) - 1 \<longrightarrow> (\<exists>st'. redo st = Some (st', True))"
    using lo by (simp add: redo_def snapshot_at_def)
  ultimately show ?thesis by blast
qed

lemma recorded_reachable: "reachable recorded_state"
proof -
  let ?m1 = "initial_state\<lparr>currentBox := Some ''BOX001'', currentSession := pen_session\<rparr>"
  have r0: "reachable initial_state"
    by (rule reach_start) (simp_all add: initial_state_def)
  have "reachable ?m1" by (rule reach_mutate[OF r0]) simp_all
  then have r1: "reachable (saveStateToHistory ?m1)" by (rule reach_record)
  let ?m2 = "(saveStateToHistory ?m1)\<lparr>currentSession := pen_cup_session\<rparr>"
  have "reachable ?m2" by (rule reach_mutate[OF r1]) simp_all
  then have r2: "reachable (saveStateToHistory ?m2)" by (rule reach_record)
  have "saveStateToHistory ?m2 = recorded_state"
    by (simp add: saveStateToHistory_def slice0_def max_history_def initial_state_def Let_def
        json_copy_examples recorded_state_def)
  then show ?thesis using r2 by simp
qed

theorem undo_redo_restores_witness:
  "reachable recorded_state \<and> 0 < historyIndex recorded_state \<and>
   currentSession recorded_state = history recorded_state ! nat (historyIndex recorded_state) \<and>
   currentSession recorded_state = pen_cup_session \<and>
   undo recorded_state = Some (undone_state, True) \<and>
   currentSession undone_state = pen_session \<and>
   redo undone_state = Some (recorded_state\<lparr>exportedSession := Some pen_cup_session\<rparr>, True) \<and>
   currentSession (recorded_state\<lparr>exportedSession := Some pen_cup_session\<rparr>) = pen_cup_session \<and>
   reachable (recorded_state\<lparr>exportedSession := Some pen_cup_session\<rparr>) \<and>
   exportedSession (recorded_state\<lparr>exportedSession := Some pen_cup_session\<rparr>) \<noteq> None \<and>
   undo (recorded_state\<lparr>exportedSession := Some pen_cup_session\<rparr>) = Some (undone_state, True) \<and>
   reachable undone_state \<and>
   historyIndex undone_state < int (length (history undone_state)) - 1 \<and>
   (\<exists>st'. redo undone_state = Some (st', True))"
proof -
  let ?D = "recorded_state\<lparr>exportedSession := Some pen_cup_session\<rparr>"
  note rR = recorded_reachable
  have hR: "0 < historyIndex recorded_state"
    "currentSession recorded_state = history recorded_state ! nat (historyIndex recorded_state)"
    "currentSession recorded_state = pen_cup_session"
    "window_session recorded_state = pen_cup_session"
    by (simp_all add: recorded_state_def window_session_def)
  have uR: "undo recorded_state = Some (undone_state, True)"
    by (simp add: undo_def snapshot_at_def recorded_state_def undone_state_def assign_session_def
        window_session_def json_copy_examples)
  have uD: "undo ?D = Some (undone_state, True)"
    by (simp add: undo_def snapshot_at_def recorded_state_def undone_state_def assign_session_def
        window_session_def json_copy_examples)
  have rU: "reachable undone_state" by (rule reach_undo [OF rR uR])
  have rD: "reachable ?D" by (rule reach_mutate[OF rR]) simp_all
  have hD: "0 < historyIndex ?D" "currentSession ?D = history ?D ! nat (historyIndex ?D)"
    "exportedSession ?D \<noteq> None" "currentSession ?D = pen_cup_session"
    by (simp_all add: recorded_state_def)
  have hU: "historyIndex undone_state < int (length (history undone_state)) - 1"
    "currentSession undone_state = pen_session"
    by (simp_all add: undone_state_def)
  from undo_redo_restores [OF rR] hR(1,2)
  obtain st1 st2 where a: "undo recorded_state = Some (st1, True)" "redo st1 = Some (st2, True)"
    "st2 = recorded_state\<lparr>exportedSession := Some (window_session recorded_state)\<rparr>"
    by blast
  have w1: "redo undone_state = Some (?D, True)"
    using a uR by (simp add: hR(4))
  from undo_redo_restores [OF rU] hU(1)
  have w2: "\<exists>st'. redo undone_state = Some (st', True)" by blast
  show ?thesis
    using rR hR(1,2,3) uR hU w1 hD(3,4) rD uD rU w2 by simp
qed

end
